theory Spec2Isabelle
  imports Complex_Main "HOL-Library.Sublist"
begin

section \<open>Python values used by the search agent\<close>

text \<open>
  Exceptions are values.  \<open>KeyboardInterrupt\<close> derives from \<open>BaseException\<close> only, so an
  \<open>except Exception\<close> clause does not catch it; selenium's \<open>TimeoutException\<close> and every
  other exception class the agent meets derive from \<open>Exception\<close>.  The string carried by
  an exception is what \<open>str(e)\<close> returns.
\<close>

datatype exn = KeyboardInterrupt | TimeoutException string | OtherException string

fun is_Exception :: "exn \<Rightarrow> bool" where
  "is_Exception KeyboardInterrupt = False"
| "is_Exception (TimeoutException m) = True"
| "is_Exception (OtherException m) = True"

fun str_exn :: "exn \<Rightarrow> string" where
  "str_exn KeyboardInterrupt = []"
| "str_exn (TimeoutException m) = m"
| "str_exn (OtherException m) = m"

text \<open>
  A Python \<open>str\<close> is modelled as a \<open>string\<close> whose characters are the code points below
  256, so \<open>length\<close> is Python's \<open>len\<close>.  \<open>str.lower\<close> maps the upper-case letters of that
  range (A-Z, and 0xC0-0xDE except the multiplication sign 0xD7) to the code point 32
  above them and leaves every other character alone.
\<close>

definition lower_char :: "char \<Rightarrow> char" where
  "lower_char c =
     (let n = (of_char c :: nat)
      in if (65 \<le> n \<and> n \<le> 90) \<or> (192 \<le> n \<and> n \<le> 222 \<and> n \<noteq> 215)
         then char_of (n + 32) else c)"

definition lower :: "string \<Rightarrow> string" where
  "lower s = map lower_char s"

text \<open>\<open>t in s\<close> on strings: \<open>t\<close> occurs in \<open>s\<close> as a contiguous run.\<close>

fun py_in :: "string \<Rightarrow> string \<Rightarrow> bool" where
  "py_in t [] = (t = [])"
| "py_in t (c # cs) = (prefix t (c # cs) \<or> py_in t cs)"

text \<open>\<open>str.isspace\<close> on the code points below 256, and the three \<open>strip\<close> calls.\<close>

definition isspace :: "char \<Rightarrow> bool" where
  "isspace c =
     (let n = (of_char c :: nat)
      in (9 \<le> n \<and> n \<le> 13) \<or> (28 \<le> n \<and> n \<le> 32) \<or> n = 133 \<or> n = 160)"

definition strip_where :: "(char \<Rightarrow> bool) \<Rightarrow> string \<Rightarrow> string" where
  "strip_where P s = rev (dropWhile P (rev (dropWhile P s)))"

definition strip :: "string \<Rightarrow> string" where
  "strip s = strip_where isspace s"

definition strip_char :: "char \<Rightarrow> string \<Rightarrow> string" where
  "strip_char c s = strip_where (\<lambda>x. x = c) s"

text \<open>\<open>xs[-n:]\<close> for a positive \<open>n\<close>: the last \<open>n\<close> elements, or all of \<open>xs\<close> when it is shorter.\<close>

definition last_n :: "nat \<Rightarrow> 'a list \<Rightarrow> 'a list" where
  "last_n n xs = drop (length xs - n) xs"

fun join :: "string \<Rightarrow> string list \<Rightarrow> string" where
  "join sep [] = []"
| "join sep [x] = x"
| "join sep (x # y # ys) = x @ sep @ join sep (y # ys)"

text \<open>
  \<open>random.choice(xs)\<close> on a non-empty list: the random source supplies a number, the
  result is the element at that number modulo the length.
\<close>

definition choice :: "nat \<Rightarrow> 'a list \<Rightarrow> 'a" where
  "choice r xs = xs ! (r mod length xs)"

section \<open>Binary floating point\<close>

text \<open>
  A Python \<open>float\<close> is an IEEE 754 binary64 number; a finite one is modelled by the real
  number it stands for (signed zeros are not told apart).  \<open>round_binary64 x\<close> is the
  binary64 number nearest to \<open>x\<close>, ties going to the even mantissa: in the binade of
  \<open>x\<close>, which is at least that of the subnormal numbers, the numbers are the multiples
  of \<open>2 ^ (binade - 52)\<close>.  A result of magnitude \<open>2 ^ 1024\<close> or more does not exist as
  a finite number.
\<close>

definition round_half_even :: "real \<Rightarrow> int" where
  "round_half_even y =
     (let n = \<lfloor>y\<rfloor>; r = y - real_of_int n
      in if r < 1 / 2 then n else if r > 1 / 2 then n + 1
         else if even n then n else n + 1)"

definition binade :: "real \<Rightarrow> int" where
  "binade x = max \<lfloor>Transcendental.log 2 \<bar>x\<bar>\<rfloor> (- 1022)"

definition round_binary64 :: "real \<Rightarrow> real" where
  "round_binary64 x =
     (if x = 0 then 0
      else (let u = 2 powr real_of_int (binade x - 52)
            in real_of_int (round_half_even (x / u)) * u))"

definition overflow_threshold :: real where
  "overflow_threshold = 2 ^ 1024"

datatype pyfloat = Finite real | Infinite

text \<open>A number as the summary holds it: the \<open>int\<close> 0 or a \<open>float\<close>.\<close>

datatype pynum = PyInt int | PyFloat pyfloat

section \<open>Agent state and observable effects\<close>

datatype level = DEBUG | INFO | WARNING | ERROR

text \<open>The logger's messages, one constructor per call site, with the values they embed.\<close>

datatype message =
    GeminiInitialized
  | GeminiInitFailed exn
  | EdgeInitialized
  | EdgeInitFailed exn
  | CsvInitialized
  | GeneratedQuery string
  | AttemptFailed nat exn
  | UsingFallback string
  | Navigating
  | SearchCompleted real
  | SearchTimeout string
  | SearchFailed exn
  | BehaviorFailed exn
  | Waiting int
  | RecoveryAttempt
  | RecoveryFailed exn
  | StartAgent int
  | UserInterrupted
  | CycleFailed int exn
  | CannotContinue
  | CleanupDone
  | CleanupWarning exn

record prompt =
  p_history_context :: string
  p_complexity :: string
  p_query_type :: string
  p_category :: string

datatype event =
    Log level message
  | ServiceCall prompt
  | Sleep nat
  | BrowserLaunch nat
  | BrowserQuit nat
  | CsvHeader
  | CleanupCalled
  | Summary int int pynum real
  | PrintInterrupted
  | PrintFatal exn
  | PrintTraceback
  | PrintExit

record row =
  timestamp :: string
  generated_query :: string
  search_url :: string
  response_status :: string
  execution_time :: real
  category :: string
  query_type :: string

record config =
  gemini_api_key :: "string option"
  debug_mode :: bool
  max_cycles :: int
  min_delay :: int
  max_delay :: int

text \<open>
  The agent object together with the world it acts on: \<open>driver\<close> is \<open>self.driver\<close> (the
  handle of a browser session, \<open>None\<close> before the first launch), \<open>csv_rows\<close> the data rows
  of the run log below its header, \<open>trace\<close> every observable effect in the order it
  happened, \<open>next_handle\<close> the handle the next launched browser gets.
\<close>

record agent =
  config :: config
  driver :: "nat option"
  search_history :: "string list"
  session_start_time :: real
  csv_rows :: "row list"
  trace :: "event list"
  next_handle :: nat

text \<open>
  A logger call does not raise: the logging module catches what its handlers raise
  while a record is emitted.
\<close>

definition emit :: "event \<Rightarrow> agent \<Rightarrow> agent" where
  "emit e s = s\<lparr>trace := trace s @ [e]\<rparr>"

definition log :: "level \<Rightarrow> message \<Rightarrow> agent \<Rightarrow> agent" where
  "log l m s = emit (Log l m) s"

definition categories :: "string list" where
  "categories =
     [''technology'', ''current events'', ''pop culture'', ''science'',
      ''entertainment'', ''sports'', ''health'', ''travel'', ''food'',
      ''history'', ''nature'', ''space'', ''education'', ''business'']"

definition query_types :: "string list" where
  "query_types =
     [''question'', ''fact'', ''news search'', ''definition'',
      ''how to'', ''what is'', ''why does'', ''comparison'']"

definition complexity_levels :: "string list" where
  "complexity_levels = [''simple'', ''detailed'', ''comprehensive'']"

section \<open>Query generation\<close>

definition forbidden_terms :: "string list" where
  "forbidden_terms = [''explicit'', ''illegal'', ''hack'', ''crack'']"

definition validate_query :: "string \<Rightarrow> bool" where
  "validate_query query =
     (if query = [] \<or> length query < 3 then False
      else if length query > 100 then False
      else if (\<exists>term \<in> set forbidden_terms. py_in term (lower query)) then False
      else True)"

text \<open>
  What the outside world does during one attempt: the three random choices and the
  answer of the generative text service (the text of the response, or the exception
  raised by the call or by reading the text).
\<close>

record attempt_world =
  pick_category :: nat
  pick_query_type :: nat
  pick_complexity :: nat
  service_reply :: "exn + string"

record gen_world =
  attempt_w :: "nat \<Rightarrow> attempt_world"
  pick_fallback :: nat

definition history_context :: "string list \<Rightarrow> string" where
  "history_context h =
     (if h \<noteq> [] then ''Recent search topics: '' @ join '', '' (last_n 3 h) @ ''. '' else [])"

text \<open>\<open>response.text.strip().strip('"').strip("'")\<close>\<close>

definition clean :: "string \<Rightarrow> string" where
  "clean text = strip_char (CHR 0x27) (strip_char (CHR 0x22) (strip text))"

datatype attempt_result =
    Returned "string \<times> string \<times> string"
  | NextAttempt
  | Raised exn

text \<open>The body of the retry loop for attempt number \<open>attempt\<close> (0, 1 or 2).\<close>

definition attempt_query :: "attempt_world \<Rightarrow> nat \<Rightarrow> agent \<Rightarrow> attempt_result \<times> agent" where
  "attempt_query w attempt s =
     (let category = choice (pick_category w) categories;
          query_type = choice (pick_query_type w) query_types;
          complexity = choice (pick_complexity w) complexity_levels;
          p = \<lparr>p_history_context = history_context (search_history s),
               p_complexity = complexity, p_query_type = query_type, p_category = category\<rparr>;
          s1 = emit (ServiceCall p) s
      in case service_reply w of
           Inr text \<Rightarrow>
             (let query = clean text
              in if validate_query query then
                   (let h = search_history s1 @ [query];
                        h' = (if length h > 20 then last_n 20 h else h)
                    in (Returned (query, category, query_type),
                        log INFO (GeneratedQuery query) (s1\<lparr>search_history := h'\<rparr>)))
                 else (NextAttempt, s1))
         | Inl e \<Rightarrow>
             if is_Exception e then
               (let s2 = log WARNING (AttemptFailed (attempt + 1) e) s1
                in (NextAttempt, if attempt < 3 - 1 then emit (Sleep (2 ^ attempt)) s2 else s2))
             else (Raised e, s1))"

text \<open>\<open>for attempt in range(max_retries)\<close>, as a recursion over the attempt numbers.\<close>

fun attempts :: "gen_world \<Rightarrow> nat list \<Rightarrow> agent \<Rightarrow> attempt_result \<times> agent" where
  "attempts g [] s = (NextAttempt, s)"
| "attempts g (i # is) s =
     (case attempt_query (attempt_w g i) i s of
        (NextAttempt, s') \<Rightarrow> attempts g is s'
      | (r, s') \<Rightarrow> (r, s'))"

definition fallback :: "gen_world \<Rightarrow> agent \<Rightarrow> (string \<times> string \<times> string) \<times> agent" where
  "fallback g s =
     (let fallback_query = ''what is '' @ choice (pick_fallback g) categories
      in ((fallback_query, ''general'', ''fallback''),
          log WARNING (UsingFallback fallback_query) s))"

definition generate_search_query ::
  "gen_world \<Rightarrow> agent \<Rightarrow> (exn + string \<times> string \<times> string) \<times> agent" where
  "generate_search_query g s =
     (case attempts g [0..<3] s of
        (Returned r, s') \<Rightarrow> (Inr r, s')
      | (Raised e, s') \<Rightarrow> (Inl e, s')
      | (NextAttempt, s') \<Rightarrow> (case fallback g s' of (r, s'') \<Rightarrow> (Inr r, s'')))"

definition service_calls :: "agent \<Rightarrow> nat" where
  "service_calls s = length (filter (\<lambda>e. case e of ServiceCall p \<Rightarrow> True | _ \<Rightarrow> False) (trace s))"

section \<open>Executing one search\<close>

text \<open>
  What the browser driver and the random source do during one search: each driver
  call either returns (\<open>None\<close>) or raises; \<open>send_key i\<close> is the \<open>send_keys\<close> call for the
  character at position \<open>i\<close> of the query; \<open>clock_start\<close> and \<open>clock_end\<close> are the two
  readings of \<open>time.time()\<close>, the wall clock, which may be set back between them.  The
  readings are floats and their difference is taken as it is: two readings of one
  binade (the seconds since 1970 stay between \<open>2 ^ 30\<close> and \<open>2 ^ 31\<close> until 2038) differ
  by a number that is a float itself, so the subtraction of the source does not round.
\<close>

record behavior_world =
  perform_moves :: "exn option"
  scroll_down :: "exn option"
  scroll_back :: bool
  scroll_up :: "exn option"

record search_world =
  clock_start :: real
  clock_end :: real
  get_page :: "exn option"
  wait_form :: "exn option"
  find_box :: "exn option"
  clear_box :: "exn option"
  send_key :: "nat \<Rightarrow> exn option"
  use_enter :: bool
  press_enter :: "exn option"
  find_button :: "exn option"
  click_button :: "exn option"
  wait_results :: "exn option"
  behavior :: behavior_world
  read_url :: "exn + string"

text \<open>A sequence of driver calls stops at the first one that raises.\<close>

fun first_exn :: "exn option list \<Rightarrow> exn option" where
  "first_exn [] = None"
| "first_exn (None # rs) = first_exn rs"
| "first_exn (Some e # rs) = Some e"

text \<open>\<open>for char in text: element.send_keys(char)\<close>, with no handler of its own.\<close>

fun human_like_typing :: "(nat \<Rightarrow> exn option) \<Rightarrow> nat \<Rightarrow> string \<Rightarrow> exn option" where
  "human_like_typing send i [] = None"
| "human_like_typing send i (c # cs) =
     (case send i of Some e \<Rightarrow> Some e | None \<Rightarrow> human_like_typing send (Suc i) cs)"

text \<open>The pointer moves, the scroll and the occasional scroll back, inside the \<open>try\<close>.\<close>

definition behavior_steps :: "behavior_world \<Rightarrow> exn option" where
  "behavior_steps b =
     first_exn [perform_moves b, scroll_down b, if scroll_back b then scroll_up b else None]"

definition simulate_human_behavior :: "behavior_world \<Rightarrow> agent \<Rightarrow> exn option \<times> agent" where
  "simulate_human_behavior b s =
     (case behavior_steps b of
        None \<Rightarrow> (None, s)
      | Some e \<Rightarrow>
          if is_Exception e then (None, log DEBUG (BehaviorFailed e) s)
          else (Some e, s))"

definition submit :: "search_world \<Rightarrow> exn option" where
  "submit w =
     (if use_enter w then press_enter w else first_exn [find_button w, click_button w])"

text \<open>The \<open>try\<close> block of \<open>execute_search\<close>: the page location, or the exception raised.\<close>

definition search_body :: "search_world \<Rightarrow> string \<Rightarrow> agent \<Rightarrow> (exn + string) \<times> agent" where
  "search_body w query s =
     (let s1 = log INFO Navigating s
      in case first_exn [get_page w, wait_form w, find_box w, clear_box w,
                         human_like_typing (send_key w) 0 query, submit w, wait_results w] of
           Some e \<Rightarrow> (Inl e, s1)
         | None \<Rightarrow>
             (case simulate_human_behavior (behavior w) s1 of
                (Some e, s2) \<Rightarrow> (Inl e, s2)
              | (None, s2) \<Rightarrow>
                  (case read_url w of
                     Inl e \<Rightarrow> (Inl e, s2)
                   | Inr url \<Rightarrow> (Inr url, s2))))"

definition execute_search ::
  "search_world \<Rightarrow> string \<Rightarrow> agent \<Rightarrow> (exn + bool \<times> string \<times> real) \<times> agent" where
  "execute_search w query s =
     (let start_time = clock_start w
      in case search_body w query s of
           (Inr current_url, s') \<Rightarrow>
             (let execution_time = clock_end w - start_time
              in (Inr (True, current_url, execution_time),
                  log INFO (SearchCompleted execution_time) s'))
         | (Inl (TimeoutException m), s') \<Rightarrow>
             (Inr (False, ''timeout'', clock_end w - start_time),
              log ERROR (SearchTimeout query) s')
         | (Inl (OtherException m), s') \<Rightarrow>
             (Inr (False, ''error: '' @ m, clock_end w - start_time),
              log ERROR (SearchFailed (OtherException m)) s')
         | (Inl KeyboardInterrupt, s') \<Rightarrow> (Inl KeyboardInterrupt, s'))"

section \<open>The run log\<close>

text \<open>
  Appending one row: \<open>stamp\<close> is \<open>datetime.now().isoformat()\<close>, \<open>write\<close> what opening the
  file and writing the row does (\<open>None\<close>, or the exception raised, after which nothing has
  been written).  The row holds the elapsed time as a number; the file shows it with two
  decimals.
\<close>

definition log_search_result ::
  "string \<Rightarrow> exn option \<Rightarrow> string \<Rightarrow> string \<Rightarrow> string \<Rightarrow> bool \<Rightarrow> string \<Rightarrow> real \<Rightarrow>
   agent \<Rightarrow> exn option \<times> agent" where
  "log_search_result stamp write query cat qtype success url exec_time s =
     (let status = (if success then ''success'' else ''failed'')
      in case write of
           Some e \<Rightarrow> (Some e, s)
         | None \<Rightarrow>
             (None, s\<lparr>csv_rows := csv_rows s @
                [\<lparr>timestamp = stamp, generated_query = query, search_url = url,
                  response_status = status, execution_time = exec_time,
                  category = cat, query_type = qtype\<rparr>]\<rparr>))"

section \<open>Pacing and recovery\<close>

text \<open>
  \<open>random.randint(a, b)\<close> raises \<open>ValueError\<close> when \<open>a > b\<close>; otherwise the delay is a
  number of the range.  \<open>countdown\<close> is what the countdown raises, if anything: its
  \<open>print\<close> calls may fail, and the user may interrupt a \<open>sleep\<close>.
\<close>

record delay_world =
  pick_delay :: nat
  countdown :: "exn option"

definition random_delay :: "delay_world \<Rightarrow> agent \<Rightarrow> exn option \<times> agent" where
  "random_delay w s =
     (let lo = min_delay (config s); hi = max_delay (config s)
      in if lo > hi then (Some (OtherException ''empty range for randrange()''), s)
         else
           (let delay = lo + int (pick_delay w mod nat (hi - lo + 1));
                s1 = log INFO (Waiting delay) s
            in case countdown w of
                 Some e \<Rightarrow> (Some e, s1)
               | None \<Rightarrow> (None, emit (Sleep (nat delay)) s1)))"

text \<open>
  Launching a browser: preparing options and the driver service, starting the browser
  (from then on \<open>self.driver\<close> is the new session), patching the navigator property.
  Every \<open>Exception\<close> is logged and raised again.
\<close>

record launch_world =
  prepare :: "exn option"
  start_edge :: "exn option"
  patch_navigator :: "exn option"

definition reraise_logged :: "exn \<Rightarrow> agent \<Rightarrow> exn option \<times> agent" where
  "reraise_logged e s = (Some e, if is_Exception e then log ERROR (EdgeInitFailed e) s else s)"

definition initialize_browser :: "launch_world \<Rightarrow> agent \<Rightarrow> exn option \<times> agent" where
  "initialize_browser w s =
     (case prepare w of
        Some e \<Rightarrow> reraise_logged e s
      | None \<Rightarrow>
          (case start_edge w of
             Some e \<Rightarrow> reraise_logged e s
           | None \<Rightarrow>
               (let h = next_handle s;
                    s1 = emit (BrowserLaunch h) (s\<lparr>driver := Some h, next_handle := Suc h\<rparr>)
                in case patch_navigator w of
                     Some e \<Rightarrow> reraise_logged e s1
                   | None \<Rightarrow> (None, log INFO EdgeInitialized s1))))"

record recovery_world =
  quit_old :: "exn option"
  relaunch :: launch_world

definition recover_from_browser_crash ::
  "recovery_world \<Rightarrow> agent \<Rightarrow> (exn + bool) \<times> agent" where
  "recover_from_browser_crash w s =
     (let s1 = log WARNING RecoveryAttempt s;
          quitting =
            (case driver s1 of
               None \<Rightarrow> (None, s1)
             | Some h \<Rightarrow>
                 (case quit_old w of
                    None \<Rightarrow> (None, emit (BrowserQuit h) s1)
                  | Some e \<Rightarrow> if is_Exception e then (None, s1) else (Some e, s1)))
      in case quitting of
           (Some e, s2) \<Rightarrow> (Inl e, s2)
         | (None, s2) \<Rightarrow>
             (case initialize_browser (relaunch w) (emit (Sleep 5) s2) of
                (None, s3) \<Rightarrow> (Inr True, s3)
              | (Some e, s3) \<Rightarrow>
                  if is_Exception e then (Inr False, log ERROR (RecoveryFailed e) s3)
                  else (Inl e, s3)))"

section \<open>The cycle loop\<close>

text \<open>
  What the outside world does during one cycle.  The \<open>print\<close> calls of the loop body
  are driver calls of their own, since the console may refuse what it cannot encode:
  \<open>print_cycle\<close> is what the two calls that open the cycle raise (the second prints a
  rule of characters that are not ASCII), \<open>print_outcome\<close> what the call that prints
  the query after the counters raises, \<open>print_progress\<close> what the progress line
  raises.
\<close>

record cycle_world =
  print_cycle :: "exn option"
  gen :: gen_world
  search :: search_world
  stamp :: string
  csv_write :: "exn option"
  print_outcome :: "exn option"
  print_progress :: "exn option"
  delay :: delay_world
  recovery :: recovery_world

record tally =
  successful_searches :: int
  failed_searches :: int

text \<open>The \<open>try\<close> block of one cycle: the exception that leaves it, if any.\<close>

definition try_cycle ::
  "cycle_world \<Rightarrow> int \<Rightarrow> int \<Rightarrow> tally \<times> agent \<Rightarrow> exn option \<times> tally \<times> agent" where
  "try_cycle w cycle cycles ts =
     (case ts of (t, s) \<Rightarrow>
        (case print_cycle w of
           Some e \<Rightarrow> (Some e, t, s)
         | None \<Rightarrow>
        (case generate_search_query (gen w) s of
           (Inl e, s1) \<Rightarrow> (Some e, t, s1)
         | (Inr (query, cat, qtype), s1) \<Rightarrow>
             (case execute_search (search w) query s1 of
                (Inl e, s2) \<Rightarrow> (Some e, t, s2)
              | (Inr (success, url, exec_time), s2) \<Rightarrow>
                  (case log_search_result (stamp w) (csv_write w) query cat qtype
                          success url exec_time s2 of
                     (Some e, s3) \<Rightarrow> (Some e, t, s3)
                   | (None, s3) \<Rightarrow>
                       (let t' = (if success
                                  then t\<lparr>successful_searches := successful_searches t + 1\<rparr>
                                  else t\<lparr>failed_searches := failed_searches t + 1\<rparr>)
                        in case first_exn [print_outcome w, print_progress w] of
                             Some e \<Rightarrow> (Some e, t', s3)
                           | None \<Rightarrow>
                               if cycle < cycles then
                                 (case random_delay (delay w) s3 of (r, s4) \<Rightarrow> (r, t', s4))
                               else (None, t', s3)))))))"

text \<open>The session-fault test of the handler, on \<open>str(e).lower()\<close>.\<close>

definition session_fault :: "exn \<Rightarrow> bool" where
  "session_fault e =
     (py_in ''driver'' (lower (str_exn e)) \<or> py_in ''session'' (lower (str_exn e)))"

datatype flow = Continue | Break | Propagate exn

text \<open>One pass through the loop body with its two handlers.\<close>

definition cycle_step ::
  "cycle_world \<Rightarrow> int \<Rightarrow> int \<Rightarrow> tally \<times> agent \<Rightarrow> flow \<times> tally \<times> agent" where
  "cycle_step w cycle cycles ts =
     (case try_cycle w cycle cycles ts of
        (None, t1, s1) \<Rightarrow> (Continue, t1, s1)
      | (Some e, t1, s1) \<Rightarrow>
          if \<not> is_Exception e then (Break, t1, log INFO UserInterrupted s1)
          else
            (let s2 = log ERROR (CycleFailed cycle e) s1;
                 t2 = t1\<lparr>failed_searches := failed_searches t1 + 1\<rparr>
             in if session_fault e then
                  (case recover_from_browser_crash (recovery w) s2 of
                     (Inr True, s3) \<Rightarrow> (Continue, t2, s3)
                   | (Inr False, s3) \<Rightarrow> (Break, t2, log ERROR CannotContinue s3)
                   | (Inl e', s3) \<Rightarrow> (Propagate e', t2, s3))
                else (Continue, t2, s2)))"

text \<open>
  \<open>for cycle in range(1, cycles + 1)\<close>, over the list of cycle numbers still to run:
  \<open>Continue\<close> when the list is exhausted, \<open>Break\<close> after a \<open>break\<close>, \<open>Propagate\<close> when an
  exception leaves the loop.
\<close>

fun run_cycles ::
  "(int \<Rightarrow> cycle_world) \<Rightarrow> int \<Rightarrow> int list \<Rightarrow> tally \<times> agent \<Rightarrow> flow \<times> tally \<times> agent" where
  "run_cycles w cycles [] ts = (Continue, ts)"
| "run_cycles w cycles (k # ks) ts =
     (case cycle_step (w k) k cycles ts of
        (Continue, ts') \<Rightarrow> run_cycles w cycles ks ts'
      | (f, ts') \<Rightarrow> (f, ts'))"

text \<open>
  True division of Python integers: the quotient correctly rounded to a \<open>float\<close>,
  \<open>ZeroDivisionError\<close> for a zero divisor, \<open>OverflowError\<close> when the rounded quotient is
  too large.  The product of two floats is the exact product rounded, infinite when
  too large.  In \<open>rate * 100\<close> the \<open>int\<close> 100 becomes the float 100.0.
\<close>

definition py_truediv :: "int \<Rightarrow> int \<Rightarrow> exn + real" where
  "py_truediv a b =
     (if b = 0 then Inl (OtherException ''division by zero'')
      else (let v = round_binary64 (real_of_int a / real_of_int b)
            in if \<bar>v\<bar> \<ge> overflow_threshold
               then Inl (OtherException ''integer division result too large for a float'')
               else Inr v))"

definition float_mul :: "real \<Rightarrow> real \<Rightarrow> pyfloat" where
  "float_mul x y =
     (let v = round_binary64 (x * y)
      in if \<bar>v\<bar> \<ge> overflow_threshold then Infinite else Finite v)"

text \<open>The rate the summary reports: a float, or the \<open>int\<close> 0 when nothing was executed.\<close>

definition success_rate :: "int \<Rightarrow> int \<Rightarrow> exn + pynum" where
  "success_rate successful failed =
     (let total_executed = successful + failed
      in if total_executed > 0 then
           (case py_truediv successful total_executed of
              Inl e \<Rightarrow> Inl e
            | Inr q \<Rightarrow> Inr (PyFloat (float_mul q 100)))
         else Inr (PyInt 0))"

text \<open>
  The summary, and before it the banner that \<open>run\<close> prints ahead of the loop, are lines
  of ASCII text; printing them is taken not to raise.
\<close>

definition print_final_summary ::
  "real \<Rightarrow> int \<Rightarrow> int \<Rightarrow> int \<Rightarrow> agent \<Rightarrow> exn option \<times> agent" where
  "print_final_summary now successful failed total_planned s =
     (case success_rate successful failed of
        Inl e \<Rightarrow> (Some e, s)
      | Inr rate \<Rightarrow>
          (None, emit (Summary successful failed rate (now - session_start_time s)) s))"

record run_world =
  cycle_w :: "int \<Rightarrow> cycle_world"
  summary_clock :: real

definition run :: "run_world \<Rightarrow> int option \<Rightarrow> agent \<Rightarrow> exn option \<times> agent" where
  "run w cycles_arg s =
     (let cycles = (case cycles_arg of None \<Rightarrow> max_cycles (config s) | Some c \<Rightarrow> c);
          s0 = log INFO (StartAgent cycles) s;
          t0 = \<lparr>successful_searches = 0, failed_searches = 0\<rparr>
      in case run_cycles (cycle_w w) cycles [1..cycles] (t0, s0) of
           (Propagate e, t, s1) \<Rightarrow> (Some e, s1)
         | (f, t, s1) \<Rightarrow>
             print_final_summary (summary_clock w) (successful_searches t)
               (failed_searches t) cycles s1)"

section \<open>Start-up, teardown and the entry point\<close>

definition cleanup :: "exn option \<Rightarrow> agent \<Rightarrow> exn option \<times> agent" where
  "cleanup quit s =
     (let s1 = emit CleanupCalled s
      in case driver s1 of
           None \<Rightarrow> (None, s1)
         | Some h \<Rightarrow>
             (case quit of
                None \<Rightarrow> (None, log INFO CleanupDone (emit (BrowserQuit h) s1))
              | Some e \<Rightarrow>
                  if is_Exception e then (None, log WARNING (CleanupWarning e) s1)
                  else (Some e, s1)))"

text \<open>
  The constructor: the configuration read from the environment (already parsed),
  the text-service client, the browser, the header of the run log.
\<close>

record startup_world =
  env :: config
  start_clock :: real
  gemini_init :: "exn option"
  launch :: launch_world
  csv_create :: "exn option"

definition construct :: "startup_world \<Rightarrow> exn option \<times> agent" where
  "construct w =
     (let s0 = \<lparr>config = env w, driver = None, search_history = [],
                session_start_time = start_clock w, csv_rows = [], trace = [],
                next_handle = 0\<rparr>
      in if gemini_api_key (env w) = None \<or> gemini_api_key (env w) = Some []
            \<or> gemini_api_key (env w) = Some ''your_gemini_api_key_here''
         then (Some (OtherException ''GEMINI_API_KEY not set in .env file''), s0)
         else
           (case gemini_init w of
              Some e \<Rightarrow> (Some e, if is_Exception e then log ERROR (GeminiInitFailed e) s0 else s0)
            | None \<Rightarrow>
                (case initialize_browser (launch w) (log INFO GeminiInitialized s0) of
                   (Some e, s1) \<Rightarrow> (Some e, s1)
                 | (None, s1) \<Rightarrow>
                     (case csv_create w of
                        Some e \<Rightarrow> (Some e, s1)
                      | None \<Rightarrow> (None, log INFO CsvInitialized (emit CsvHeader s1))))))"

text \<open>
  The handlers and the \<open>finally\<close> clause of \<open>main\<close>; \<open>bound\<close> tells whether the local
  name \<open>agent\<close> was bound, which the fatal-error handler reads.
\<close>

definition handlers :: "bool \<Rightarrow> exn \<Rightarrow> agent \<Rightarrow> exn option \<times> agent" where
  "handlers bound e s =
     (if \<not> is_Exception e then (None, emit PrintExit (emit PrintInterrupted s))
      else
        (let s1 = emit (PrintFatal e) s
         in if bound then
              (None, emit PrintExit (if debug_mode (config s1) then emit PrintTraceback s1 else s1))
            else (Some (OtherException ''UnboundLocalError: agent''), emit PrintExit s1)))"

record main_world =
  startup :: startup_world
  running :: run_world
  cleanup_quit :: "exn option"

text \<open>
  \<open>with AISearchAgent() as agent: agent.run()\<close>: when the constructor raises, the
  \<open>with\<close> statement is never entered and \<open>__exit__\<close> is not called; once entered,
  \<open>__exit__\<close> runs \<open>cleanup\<close> however \<open>run\<close> ends and does not suppress the exception.
\<close>

definition main :: "main_world \<Rightarrow> exn option \<times> agent" where
  "main w =
     (case construct (startup w) of
        (Some e, s) \<Rightarrow> handlers False e s
      | (None, s) \<Rightarrow>
          (case run (running w) None s of
             (r, s1) \<Rightarrow>
               (case cleanup (cleanup_quit w) s1 of
                  (c, s2) \<Rightarrow>
                    (case (case c of Some e \<Rightarrow> Some e | None \<Rightarrow> r) of
                       None \<Rightarrow> (None, emit PrintExit s2)
                     | Some e \<Rightarrow> handlers True e s2))))"

text \<open>The browser sessions launched and not quit, read off a trace.\<close>

definition live_browsers :: "event list \<Rightarrow> nat list" where
  "live_browsers tr =
     filter (\<lambda>h. BrowserQuit h \<notin> set tr)
       (concat (map (\<lambda>e. case e of BrowserLaunch h \<Rightarrow> [h] | _ \<Rightarrow> []) tr))"

definition recoveries :: "agent \<Rightarrow> nat" where
  "recoveries s = length (filter (\<lambda>e. e = Log WARNING RecoveryAttempt) (trace s))"

section \<open>Notions used to state the properties\<close>

text \<open>An attempt fails when the service raises or the cleaned reply is rejected.\<close>

definition attempt_fails :: "attempt_world \<Rightarrow> bool" where
  "attempt_fails w =
     (case service_reply w of
        Inl e \<Rightarrow> is_Exception e
      | Inr text \<Rightarrow> \<not> validate_query (clean text))"

text \<open>A sequence of \<open>generate_search_query\<close> calls, one per element of the list.\<close>

definition generate_many :: "gen_world list \<Rightarrow> agent \<Rightarrow> agent" where
  "generate_many gs s = fold (\<lambda>g s. snd (generate_search_query g s)) gs s"

section \<open>Concrete scenarios\<close>

definition demo_config :: config where
  "demo_config =
     \<lparr>gemini_api_key = Some ''k3y'', debug_mode = False, max_cycles = 2,
      min_delay = 5, max_delay = 45\<rparr>"

definition ready_agent :: agent where
  "ready_agent =
     \<lparr>config = demo_config, driver = Some 0, search_history = [],
      session_start_time = 0, csv_rows = [], trace = [BrowserLaunch 0, CsvHeader],
      next_handle = 1\<rparr>"

definition attempt_ok :: attempt_world where
  "attempt_ok =
     \<lparr>pick_category = 7, pick_query_type = 0, pick_complexity = 1,
      service_reply = Inr (CHR 0x22 # ''Best hiking trails'' @ [CHR 0x22, CHR 0x0A])\<rparr>"

definition attempt_down :: attempt_world where
  "attempt_down =
     \<lparr>pick_category = 3, pick_query_type = 2, pick_complexity = 0,
      service_reply = Inl (OtherException ''503 unavailable'')\<rparr>"

definition gen_ok :: gen_world where
  "gen_ok = \<lparr>attempt_w = (\<lambda>i. attempt_ok), pick_fallback = 0\<rparr>"

definition gen_down :: gen_world where
  "gen_down = \<lparr>attempt_w = (\<lambda>i. attempt_down), pick_fallback = 17\<rparr>"

definition full_agent :: agent where
  "full_agent =
     ready_agent\<lparr>search_history :=
       [''q01'', ''q02'', ''q03'', ''q04'', ''q05'', ''q06'', ''q07'', ''q08'', ''q09'', ''q10'',
        ''q11'', ''q12'', ''q13'', ''q14'', ''q15'', ''q16'', ''q17'', ''q18'', ''q19'', ''q20'']\<rparr>"

definition behavior_ok :: behavior_world where
  "behavior_ok =
     \<lparr>perform_moves = None, scroll_down = None, scroll_back = True, scroll_up = None\<rparr>"

definition search_ok :: search_world where
  "search_ok =
     \<lparr>clock_start = 100, clock_end = 103, get_page = None, wait_form = None,
      find_box = None, clear_box = None, send_key = (\<lambda>i. None), use_enter = False,
      press_enter = None, find_button = None, click_button = None, wait_results = None,
      behavior = behavior_ok, read_url = Inr ''https://www.bing.com/search?q=cats''\<rparr>"

definition search_timeout :: search_world where
  "search_timeout =
     search_ok\<lparr>clock_end := 115, wait_form := Some (TimeoutException ''Message: '')\<rparr>"

definition search_clock_set_back :: search_world where
  "search_clock_set_back = search_ok\<lparr>clock_end := 99\<rparr>"

definition search_typing_fails :: search_world where
  "search_typing_fails =
     search_ok\<lparr>send_key :=
       (\<lambda>i. if i = 2 then Some (OtherException ''element not interactable'') else None)\<rparr>"

definition search_behavior_fails :: search_world where
  "search_behavior_fails =
     search_ok\<lparr>behavior :=
       behavior_ok\<lparr>scroll_down := Some (OtherException ''javascript error'')\<rparr>\<rparr>"

lemmas search_defs = search_body_def execute_search_def simulate_human_behavior_def
  behavior_steps_def submit_def Let_def log_def emit_def

definition no_tally :: tally where
  "no_tally = \<lparr>successful_searches = 0, failed_searches = 0\<rparr>"

definition delay_quick :: delay_world where
  "delay_quick = \<lparr>pick_delay = 0, countdown = None\<rparr>"

definition launch_ok :: launch_world where
  "launch_ok = \<lparr>prepare = None, start_edge = None, patch_navigator = None\<rparr>"

definition recovery_ok :: recovery_world where
  "recovery_ok = \<lparr>quit_old = None, relaunch = launch_ok\<rparr>"

definition cycle_ok :: cycle_world where
  "cycle_ok =
     \<lparr>print_cycle = None, gen = gen_ok, search = search_ok,
      stamp = ''2025-01-01T10:00:00'', csv_write = None, print_outcome = None,
      print_progress = None, delay = delay_quick, recovery = recovery_ok\<rparr>"

definition cycle_timeout :: cycle_world where
  "cycle_timeout = cycle_ok\<lparr>search := search_timeout, stamp := ''2025-01-01T10:01:00''\<rparr>"

definition cycle_print_fails :: cycle_world where
  "cycle_print_fails =
     cycle_ok\<lparr>print_cycle := Some (OtherException ''charmap codec cannot encode characters'')\<rparr>"

definition search_session_dead :: search_world where
  "search_session_dead =
     search_ok\<lparr>get_page := Some (OtherException ''Message: invalid session id'')\<rparr>"

definition cycle_browser_dead :: cycle_world where
  "cycle_browser_dead = cycle_ok\<lparr>search := search_session_dead\<rparr>"

definition cycles_timeout_then_ok :: "int \<Rightarrow> cycle_world" where
  "cycles_timeout_then_ok k = (if k = 1 then cycle_timeout else cycle_ok)"

definition cycles_print_fails :: "int \<Rightarrow> cycle_world" where
  "cycles_print_fails k = cycle_print_fails"


definition startup_ok :: startup_world where
  "startup_ok =
     \<lparr>env = demo_config, start_clock = 0, gemini_init = None, launch = launch_ok,
      csv_create = None\<rparr>"

definition main_ok :: main_world where
  "main_ok =
     \<lparr>startup = startup_ok,
      running = \<lparr>cycle_w = cycles_timeout_then_ok, summary_clock = 60\<rparr>,
      cleanup_quit = None\<rparr>"

definition main_csv_fails :: main_world where
  "main_csv_fails =
     main_ok\<lparr>startup := startup_ok\<lparr>csv_create := Some (OtherException ''Permission denied'')\<rparr>\<rparr>"

section \<open>Strings and random choices\<close>

lemma py_in_sublist: "py_in t s = sublist t s"
  by (induction s) (auto simp: sublist_Cons_right)

lemma lower_segment:
  "py_in t (lower q) \<longleftrightarrow> (\<exists>p u r. q = p @ u @ r \<and> lower u = t)"
proof
  assume "py_in t (lower q)"
  then obtain a b where "map lower_char q = a @ t @ b"
    by (auto simp: py_in_sublist sublist_def lower_def)
  then obtain p vs where 1: "q = p @ vs" "map lower_char vs = t @ b"
    by (metis map_eq_append_conv)
  then obtain u r where 2: "vs = u @ r" "map lower_char u = t"
    by (metis map_eq_append_conv)
  from 1 2 show "\<exists>p u r. q = p @ u @ r \<and> lower u = t"
    unfolding lower_def by blast
next
  assume "\<exists>p u r. q = p @ u @ r \<and> lower u = t"
  then obtain p u r where "q = p @ u @ r" "lower u = t" by blast
  then have "lower q = lower p @ t @ lower r" by (simp add: lower_def)
  then show "py_in t (lower q)" unfolding py_in_sublist sublist_def by blast
qed

lemma choice_mem: "xs \<noteq> [] \<Longrightarrow> choice r xs \<in> set xs"
  by (simp add: choice_def)

lemma query_types_nonempty: "query_types \<noteq> []"
  by (simp add: query_types_def)

lemma categories_nonempty: "categories \<noteq> []"
  by (simp add: categories_def)

lemma last_n_length: "length (last_n n xs) = min n (length xs)"
  by (simp add: last_n_def)

section \<open>Query generation: validity, fallback and history\<close>

lemma fallback_valid: "\<forall>c \<in> set categories. validate_query (''what is '' @ c)"
  by (simp add: categories_def validate_query_def forbidden_terms_def lower_def lower_char_def)

lemma service_calls_emit:
  "service_calls (emit e s) = service_calls s + (case e of ServiceCall p \<Rightarrow> 1 | _ \<Rightarrow> 0)"
  by (cases e) (simp_all add: service_calls_def emit_def)

lemma service_calls_log [simp]: "service_calls (log l m s) = service_calls s"
  by (simp add: log_def service_calls_emit)

lemma service_calls_history [simp]:
  "service_calls (s\<lparr>search_history := h\<rparr>) = service_calls s"
  by (simp add: service_calls_def)

lemma history_emit [simp]: "search_history (emit e s) = search_history s"
  by (simp add: emit_def)

lemma history_log [simp]: "search_history (log l m s) = search_history s"
  by (simp add: log_def)

lemma attempt_query_calls:
  "attempt_query w i s = (r, s') \<Longrightarrow> service_calls s' = Suc (service_calls s)"
  by (auto simp: attempt_query_def Let_def service_calls_emit split: sum.splits if_splits)

lemma attempt_query_Returned:
  "attempt_query w i s = (Returned (q, c, ty), s') \<Longrightarrow>
     validate_query q \<and> ty \<in> set query_types \<and>
     search_history s' = (if length (search_history s @ [q]) > 20
                          then last_n 20 (search_history s @ [q]) else search_history s @ [q])"
  by (auto simp: attempt_query_def Let_def choice_mem query_types_nonempty split: sum.splits if_splits)

lemma attempt_query_other:
  "attempt_query w i s = (r, s') \<Longrightarrow> (\<forall>x. r \<noteq> Returned x) \<Longrightarrow>
     search_history s' = search_history s"
  by (auto simp: attempt_query_def Let_def split: sum.splits if_splits)

lemma attempt_query_Raised:
  "attempt_query w i s = (Raised e, s') \<Longrightarrow> e = KeyboardInterrupt"
  by (cases e) (auto simp: attempt_query_def Let_def split: sum.splits if_splits)

lemma attempt_query_fails:
  "attempt_fails w \<Longrightarrow> fst (attempt_query w i s) = NextAttempt"
  by (auto simp: attempt_query_def attempt_fails_def Let_def split: sum.splits if_splits)

lemma attempts_calls_fail:
  "\<forall>i \<in> set is. attempt_fails (attempt_w g i) \<Longrightarrow>
     fst (attempts g is s) = NextAttempt \<and>
     service_calls (snd (attempts g is s)) = service_calls s + length is \<and>
     search_history (snd (attempts g is s)) = search_history s"
proof (induction "is" arbitrary: s)
  case Nil
  then show ?case by simp
next
  case (Cons i "is")
  obtain r s' where a: "attempt_query (attempt_w g i) i s = (r, s')"
    by (cases "attempt_query (attempt_w g i) i s")
  with Cons.prems attempt_query_fails [of "attempt_w g i" i s] have r: "r = NextAttempt"
    by simp
  from a r have "search_history s' = search_history s"
    by (auto dest: attempt_query_other)
  moreover from a have "service_calls s' = Suc (service_calls s)"
    by (rule attempt_query_calls)
  ultimately show ?case using Cons a r by simp
qed

lemma attempts_history:
  "attempts g is s = (r, s') \<Longrightarrow>
     (case r of
        Returned (q, c, ty) \<Rightarrow>
          validate_query q \<and> ty \<in> set query_types \<and>
          search_history s' = (if length (search_history s @ [q]) > 20
                               then last_n 20 (search_history s @ [q])
                               else search_history s @ [q])
      | NextAttempt \<Rightarrow> search_history s' = search_history s
      | Raised e \<Rightarrow> e = KeyboardInterrupt \<and> search_history s' = search_history s)"
proof (induction "is" arbitrary: s)
  case Nil
  then show ?case by auto
next
  case (Cons i "is")
  obtain r1 s1 where a: "attempt_query (attempt_w g i) i s = (r1, s1)"
    by (cases "attempt_query (attempt_w g i) i s")
  show ?case
  proof (cases r1)
    case (Returned x)
    obtain q c ty where x: "x = (q, c, ty)" by (cases x)
    with a Returned Cons.prems have "r = Returned (q, c, ty)" "s' = s1" by auto
    with a Returned x attempt_query_Returned [of "attempt_w g i" i s q c ty s1]
    show ?thesis by simp
  next
    case NextAttempt
    with a have h: "search_history s1 = search_history s"
      by (auto dest: attempt_query_other)
    from a NextAttempt Cons.prems have "attempts g is s1 = (r, s')" by simp
    from Cons.IH [OF this] show ?thesis unfolding h .
  next
    case (Raised e)
    with a Cons.prems have "r = Raised e" "s' = s1" by auto
    moreover from a Raised have "e = KeyboardInterrupt" by (auto dest: attempt_query_Raised)
    moreover from a Raised have "search_history s1 = search_history s"
      by (auto dest: attempt_query_other)
    ultimately show ?thesis by simp
  qed
qed

lemma generate_history:
  "generate_search_query g s = (Inr (q, c, ty), s') \<Longrightarrow>
     (ty = ''fallback'' \<longrightarrow> search_history s' = search_history s) \<and>
     (ty \<noteq> ''fallback'' \<longrightarrow> search_history s' = last_n 20 (search_history s @ [q]))"
proof -
  assume a: "generate_search_query g s = (Inr (q, c, ty), s')"
  obtain r s1 where b: "attempts g [0..<3] s = (r, s1)"
    by (cases "attempts g [0..<3] s")
  note h = attempts_history [OF b]
  have nf: "''fallback'' \<notin> set query_types" by (simp add: query_types_def)
  show ?thesis
  proof (cases r)
    case (Returned x)
    with a b have x: "x = (q, c, ty)" and s: "s' = s1"
      by (auto simp: generate_search_query_def)
    with h Returned nf show ?thesis by (auto simp: last_n_def)
  next
    case NextAttempt
    with a b have "ty = ''fallback''" "search_history s' = search_history s1"
      by (auto simp: generate_search_query_def fallback_def Let_def)
    with h NextAttempt show ?thesis by simp
  next
    case (Raised e)
    with a b show ?thesis by (simp add: generate_search_query_def)
  qed
qed

lemma generate_history_bound:
  "length (search_history s) \<le> 20 \<Longrightarrow>
   length (search_history (snd (generate_search_query g s))) \<le> 20"
proof -
  assume le: "length (search_history s) \<le> 20"
  obtain r s1 where b: "attempts g [0..<3] s = (r, s1)"
    by (cases "attempts g [0..<3] s")
  note h = attempts_history [OF b]
  show ?thesis
  proof (cases r)
    case (Returned x)
    obtain q c ty where "x = (q, c, ty)" by (cases x)
    with h Returned le b show ?thesis
      by (auto simp: generate_search_query_def last_n_length)
  next
    case NextAttempt
    with h le b show ?thesis
      by (simp add: generate_search_query_def fallback_def Let_def)
  next
    case (Raised e)
    with h le b show ?thesis by (simp add: generate_search_query_def)
  qed
qed

lemma generate_many_bound:
  "length (search_history s) \<le> 20 \<Longrightarrow> length (search_history (generate_many gs s)) \<le> 20"
  unfolding generate_many_def
  by (induction gs arbitrary: s) (simp_all add: generate_history_bound)

lemma generate_valid:
  "generate_search_query g s = (Inr (q, c, ty), s') \<Longrightarrow> validate_query q"
proof -
  assume a: "generate_search_query g s = (Inr (q, c, ty), s')"
  obtain r s1 where b: "attempts g [0..<3] s = (r, s1)"
    by (cases "attempts g [0..<3] s")
  note h = attempts_history [OF b]
  show ?thesis
  proof (cases r)
    case (Returned x)
    with a b have x: "x = (q, c, ty)" 
      by (auto simp: generate_search_query_def)
    with h Returned show ?thesis by auto
  next
    case NextAttempt
    with a b have "q = ''what is '' @ choice (pick_fallback g) categories"
      by (auto simp: generate_search_query_def fallback_def Let_def)
    with fallback_valid choice_mem [OF categories_nonempty] show ?thesis by blast
  next
    case (Raised e)
    with a b show ?thesis by (simp add: generate_search_query_def)
  qed
qed

lemma generate_raises:
  "generate_search_query g s = (Inl e, s') \<Longrightarrow>
     e = KeyboardInterrupt \<and> search_history s' = search_history s"
proof -
  assume a: "generate_search_query g s = (Inl e, s')"
  obtain r s1 where b: "attempts g [0..<3] s = (r, s1)"
    by (cases "attempts g [0..<3] s")
  note h = attempts_history [OF b]
  from a b h show ?thesis
    by (cases r) (auto simp: generate_search_query_def fallback_def Let_def)
qed

lemma history_initialize_browser:
  "initialize_browser w s = (r, s') \<Longrightarrow> search_history s' = search_history s"
  by (auto simp: initialize_browser_def reraise_logged_def Let_def split: option.splits if_splits)

lemma construct_history: "search_history (snd (construct w)) = []"
  by (auto simp: construct_def Let_def split: option.splits prod.splits
      dest!: history_initialize_browser)

lemma agent_demo_gen_down:
  "\<exists>s'. generate_search_query gen_down ready_agent =
          (Inr (''what is science'', ''general'', ''fallback''), s')"
  by (simp add: generate_search_query_def gen_down_def attempt_down_def attempt_query_def
      Let_def fallback_def choice_def categories_def upt_rec log_def emit_def)

lemma agent_demo_gen_ok:
  "\<exists>s'. generate_search_query gen_ok ready_agent =
          (Inr (''Best hiking trails'', ''travel'', ''question''), s')"
  by (simp add: generate_search_query_def gen_ok_def attempt_ok_def attempt_query_def
      Let_def choice_def categories_def query_types_def upt_rec log_def emit_def
      clean_def strip_def strip_char_def strip_where_def isspace_def
      validate_query_def forbidden_terms_def lower_def lower_char_def)

lemma agent_demo_gen_ok_full:
  "\<exists>s'. generate_search_query gen_ok full_agent =
          (Inr (''Best hiking trails'', ''travel'', ''question''), s')"
  by (simp add: generate_search_query_def gen_ok_def attempt_ok_def attempt_query_def
      Let_def choice_def categories_def query_types_def upt_rec log_def emit_def
      clean_def strip_def strip_char_def strip_where_def isspace_def
      validate_query_def forbidden_terms_def lower_def lower_char_def)

text \<open>
  C4: every query that \<open>generate_search_query\<close> returns, from the service or from the
  fallback, has between 3 and 100 characters, and no stretch of it reads, once
  lower-cased, as one of the forbidden terms.
\<close>

theorem generated_query_valid:
  "generate_search_query g s = (Inr (q, c, ty), s') \<Longrightarrow>
     3 \<le> length q \<and> length q \<le> 100 \<and>
     (\<forall>term \<in> set forbidden_terms. \<not> (\<exists>p u r. q = p @ u @ r \<and> lower u = term))"
proof -
  assume "generate_search_query g s = (Inr (q, c, ty), s')"
  then have "validate_query q" by (rule generate_valid)
  then show ?thesis
    unfolding validate_query_def lower_segment [symmetric]
    by (auto split: if_splits)
qed

theorem generated_query_valid_witness:
  "fst (generate_search_query gen_ok ready_agent) =
     Inr (''Best hiking trails'', ''travel'', ''question'') \<and>
   3 \<le> length ''Best hiking trails'' \<and> length ''Best hiking trails'' \<le> 100 \<and>
   \<not> (\<exists>term \<in> set forbidden_terms.
        \<exists>p u r. ''Best hiking trails'' = p @ u @ r \<and> lower u = term)"
proof -
  from agent_demo_gen_ok obtain s' where
    h: "generate_search_query gen_ok ready_agent =
          (Inr (''Best hiking trails'', ''travel'', ''question''), s')"
    by blast
  from generated_query_valid [OF h] h show ?thesis by simp
qed

text \<open>
  C5: when each of the three attempts fails, by an exception of the service or by a
  rejected reply, \<open>generate_search_query\<close> returns (it does not raise) the fallback
  triple: a query built from a category label, category \<open>general\<close>, query type
  \<open>fallback\<close>.  The service has been called three times, once per attempt, and the
  fallback itself calls it no more.
\<close>

theorem fallback_after_three_failures:
  "\<forall>i \<in> {0..<3}. attempt_fails (attempt_w g i) \<Longrightarrow>
     generate_search_query g s =
       (case fallback g (snd (attempts g [0..<3] s)) of (r, s'') \<Rightarrow> (Inr r, s'')) \<and>
     fst (generate_search_query g s) =
       Inr (''what is '' @ choice (pick_fallback g) categories, ''general'', ''fallback'') \<and>
     choice (pick_fallback g) categories \<in> set categories \<and>
     service_calls (snd (generate_search_query g s)) = service_calls s + 3 \<and>
     service_calls (snd (fallback g s1)) = service_calls s1"
proof -
  assume "\<forall>i \<in> {0..<3}. attempt_fails (attempt_w g i)"
  then have f: "\<forall>i \<in> set [0..<3]. attempt_fails (attempt_w g i)" by simp
  note a = attempts_calls_fail [OF f, of s]
  obtain r s2 where b: "attempts g [0..<3] s = (r, s2)"
    by (cases "attempts g [0..<3] s")
  with a have r: "r = NextAttempt" and c: "service_calls s2 = service_calls s + 3" by simp_all
  from b r have 1: "generate_search_query g s =
           (case fallback g (snd (attempts g [0..<3] s)) of (r, s'') \<Rightarrow> (Inr r, s''))"
    by (simp add: generate_search_query_def)
  from b r have 2: "fst (generate_search_query g s) =
           Inr (''what is '' @ choice (pick_fallback g) categories, ''general'', ''fallback'')"
    by (simp add: generate_search_query_def fallback_def Let_def)
  have 3: "choice (pick_fallback g) categories \<in> set categories"
    by (rule choice_mem [OF categories_nonempty])
  from b r c have 4: "service_calls (snd (generate_search_query g s)) = service_calls s + 3"
    by (simp add: generate_search_query_def fallback_def Let_def)
  have 5: "service_calls (snd (fallback g s1)) = service_calls s1"
    by (simp add: fallback_def Let_def)
  from 1 2 3 4 5 show ?thesis by blast
qed

theorem fallback_after_three_failures_witness:
  "fst (generate_search_query gen_down ready_agent) =
     Inr (''what is science'', ''general'', ''fallback'') \<and>
   service_calls (snd (generate_search_query gen_down ready_agent)) = 3"
proof -
  have h: "\<forall>i \<in> {0..<3}. attempt_fails (attempt_w gen_down i)"
    by (simp add: gen_down_def attempt_down_def attempt_fails_def)
  have c: "choice (pick_fallback gen_down) categories = ''science''"
    by (simp add: gen_down_def choice_def categories_def)
  have z: "service_calls ready_agent = 0"
    by (simp add: service_calls_def ready_agent_def)
  note t = fallback_after_three_failures [OF h, of ready_agent ready_agent]
  note t2 = t [THEN conjunct2, THEN conjunct1]
  note t4 = t [THEN conjunct2, THEN conjunct2, THEN conjunct2, THEN conjunct1]
  from t2 t4 c z show ?thesis by simp
qed

text \<open>
  C6: a history of at most 20 entries stays so through any sequence of
  \<open>generate_search_query\<close> calls, and the history of a newly constructed agent is empty.
  A query returned from the service (its type is not \<open>fallback\<close>) is appended; the
  history then keeps its 20 most recent entries, so a full history loses its oldest
  one.  The fallback leaves the history alone.
\<close>

theorem history_never_exceeds_20:
  "length (search_history s) \<le> 20 \<Longrightarrow>
     length (search_history (generate_many gs s)) \<le> 20 \<and>
     length (search_history (generate_many gs (snd (construct w)))) \<le> 20 \<and>
     (\<forall>g q c ty s'. generate_search_query g s = (Inr (q, c, ty), s') \<longrightarrow>
        (ty = ''fallback'' \<longrightarrow> search_history s' = search_history s) \<and>
        (ty \<noteq> ''fallback'' \<longrightarrow>
           search_history s' = last_n 20 (search_history s @ [q]) \<and>
           (length (search_history s) < 20 \<longrightarrow> search_history s' = search_history s @ [q]) \<and>
           (length (search_history s) = 20 \<longrightarrow>
              search_history s' = tl (search_history s) @ [q] \<and> length (search_history s') = 20)))"
proof -
  assume le: "length (search_history s) \<le> 20"
  have a: "length (search_history (generate_many gs s)) \<le> 20"
    using le by (rule generate_many_bound)
  have b: "length (search_history (generate_many gs (snd (construct w)))) \<le> 20"
    by (rule generate_many_bound) (simp add: construct_history)
  have c: "last_n 20 (h @ [q]) = h @ [q]" if "length h < 20" for h :: "string list" and q
    using that by (simp add: last_n_def)
  have d: "last_n 20 (h @ [q]) = tl h @ [q]" if "length h = 20" for h :: "string list" and q
    using that by (cases h) (simp_all add: last_n_def)
  show ?thesis
  proof (intro conjI allI impI)
    fix g q c ty s'
    assume g: "generate_search_query g s = (Inr (q, c, ty), s')"
    note h = generate_history [OF g]
    { assume "ty = ''fallback''" with h show "search_history s' = search_history s" by simp }
    { assume "ty \<noteq> ''fallback''"
      with h show e: "search_history s' = last_n 20 (search_history s @ [q])" by simp
      { assume "length (search_history s) < 20"
        with e c show "search_history s' = search_history s @ [q]" by simp }
      { assume l: "length (search_history s) = 20"
        with e d show f: "search_history s' = tl (search_history s) @ [q]" by simp
        from f l show "length (search_history s') = 20" by simp } }
  qed (rule a, rule b)
qed

theorem history_never_exceeds_20_witness:
  "search_history (snd (generate_search_query gen_ok full_agent)) =
     [''q02'', ''q03'', ''q04'', ''q05'', ''q06'', ''q07'', ''q08'', ''q09'', ''q10'',
      ''q11'', ''q12'', ''q13'', ''q14'', ''q15'', ''q16'', ''q17'', ''q18'', ''q19'', ''q20'',
      ''Best hiking trails''] \<and>
   length (search_history (generate_many [gen_ok, gen_down, gen_ok] full_agent)) \<le> 20"
proof -
  have le: "length (search_history full_agent) \<le> 20" by (simp add: full_agent_def)
  from agent_demo_gen_ok_full obtain s' where
    g: "generate_search_query gen_ok full_agent =
          (Inr (''Best hiking trails'', ''travel'', ''question''), s')"
    by blast
  note t = history_never_exceeds_20 [OF le, of "[gen_ok, gen_down, gen_ok]"]
  note t1 = t [THEN conjunct1]
  note t3 = t [THEN conjunct2, THEN conjunct2, rule_format, OF g]
  from t3 have "search_history s' = tl (search_history full_agent) @ [''Best hiking trails'']"
    by (simp add: full_agent_def last_n_def)
  with g t1 show ?thesis by (simp add: full_agent_def)
qed

section \<open>The final summary\<close>

lemma round_half_even_error: "\<bar>real_of_int (round_half_even y) - y\<bar> \<le> 1 / 2"
  unfolding round_half_even_def Let_def by (auto; linarith)

lemma round_binary64_error:
  "x \<noteq> 0 \<Longrightarrow> \<bar>round_binary64 x - x\<bar> \<le> 2 powr real_of_int (binade x - 53)"
proof -
  assume x: "x \<noteq> 0"
  define u where "u = 2 powr real_of_int (binade x - 52)"
  have u: "u > 0" by (simp add: u_def)
  have "round_binary64 x = real_of_int (round_half_even (x / u)) * u"
    using x by (simp add: round_binary64_def Let_def u_def)
  then have "round_binary64 x - x = (real_of_int (round_half_even (x / u)) - x / u) * u"
    using u by (simp add: field_simps)
  then have "\<bar>round_binary64 x - x\<bar> = \<bar>real_of_int (round_half_even (x / u)) - x / u\<bar> * u"
    using u by (simp add: abs_mult)
  also have "\<dots> \<le> (1 / 2) * u"
    using round_half_even_error [of "x / u"] u by (intro mult_right_mono) simp_all
  also have "\<dots> = 2 powr real_of_int (binade x - 53)"
    by (simp add: u_def powr_diff)
  finally show ?thesis .
qed

lemma binade_le:
  "x \<noteq> 0 \<Longrightarrow> \<bar>x\<bar> < 2 powr real_of_int (j + 1) \<Longrightarrow> - 1022 \<le> j \<Longrightarrow> binade x \<le> j"
proof -
  assume x: "x \<noteq> 0" and lt: "\<bar>x\<bar> < 2 powr real_of_int (j + 1)" and j: "- 1022 \<le> j"
  from x have "0 < \<bar>x\<bar>" by simp
  with lt have "Transcendental.log 2 \<bar>x\<bar> < real_of_int (j + 1)"
    by (simp add: log_less_iff)
  then have "\<lfloor>Transcendental.log 2 \<bar>x\<bar>\<rfloor> \<le> j" by (simp add: floor_le_iff)
  with j show ?thesis by (simp add: binade_def)
qed

lemma binade_eq:
  "2 powr real_of_int e \<le> x \<Longrightarrow> x < 2 powr real_of_int (e + 1) \<Longrightarrow> - 1022 \<le> e \<Longrightarrow>
   binade x = e"
proof -
  assume a: "2 powr real_of_int e \<le> x" "x < 2 powr real_of_int (e + 1)" "- 1022 \<le> e"
  have x: "0 < x" using a(1) by (rule less_le_trans [rotated]) simp
  from x a have "\<lfloor>Transcendental.log 2 x\<rfloor> = e"
    by (simp add: floor_log_eq_powr_iff)
  with x a show ?thesis by (simp add: binade_def)
qed

lemma round_binary64_near:
  "\<bar>x\<bar> < 2 powr real_of_int (j + 1) \<Longrightarrow> - 1022 \<le> j \<Longrightarrow>
   \<bar>round_binary64 x - x\<bar> \<le> 2 powr real_of_int (j - 53)"
proof (cases "x = 0")
  case True
  then show ?thesis by (simp add: round_binary64_def)
next
  case False
  assume "\<bar>x\<bar> < 2 powr real_of_int (j + 1)" "- 1022 \<le> j"
  with False have "binade x \<le> j" by (rule binade_le)
  then have "2 powr real_of_int (binade x - 53) \<le> 2 powr real_of_int (j - 53)"
    by simp
  with round_binary64_error [OF False] show ?thesis by linarith
qed

lemma quotient_rounding:
  assumes "0 \<le> s" "0 \<le> f" "s + f \<noteq> 0"
  defines "x \<equiv> real_of_int s / real_of_int (s + f)"
  shows "\<bar>round_binary64 x - x\<bar> \<le> 1 / 2 ^ 53"
    and "\<bar>round_binary64 (round_binary64 x * 100) - x * 100\<bar> < 1 / 2 ^ 45"
    and "\<bar>round_binary64 x\<bar> < overflow_threshold"
    and "\<bar>round_binary64 (round_binary64 x * 100)\<bar> < overflow_threshold"
proof -
  from assms have pos: "0 < real_of_int (s + f)" by simp
  from assms(1,2) pos have x: "0 \<le> x" "x \<le> 1" by (simp_all add: x_def)
  then have "\<bar>x\<bar> < 2 powr real_of_int (0 + 1)" by simp
  from round_binary64_near [OF this]
  have q: "\<bar>round_binary64 x - x\<bar> \<le> 1 / 2 ^ 53"
    by (simp add: powr_minus powr_numeral field_simps)
  then show "\<bar>round_binary64 x - x\<bar> \<le> 1 / 2 ^ 53" .
  define q where "q = round_binary64 x"
  from q x have qb: "\<bar>q\<bar> \<le> 1 + 1 / 2 ^ 53" unfolding q_def by linarith
  have "(1 + 1 / 2 ^ 53) * 100 < (128 :: real)" by simp
  with qb have q128: "\<bar>q * 100\<bar> < 128" by (simp add: abs_mult)
  then have "\<bar>q * 100\<bar> < 2 powr real_of_int (6 + 1)" by (simp add: powr_numeral)
  from round_binary64_near [OF this]
  have r: "\<bar>round_binary64 (q * 100) - q * 100\<bar> \<le> 1 / 2 ^ 47"
    by (simp add: powr_minus powr_numeral field_simps)
  have "\<bar>q * 100 - x * 100\<bar> \<le> 100 / 2 ^ 53"
    using q unfolding q_def by linarith
  with r have "\<bar>round_binary64 (q * 100) - x * 100\<bar> \<le> 1 / 2 ^ 47 + 100 / 2 ^ 53"
    by linarith
  also have "\<dots> < 1 / 2 ^ 45" by simp
  finally show "\<bar>round_binary64 (round_binary64 x * 100) - x * 100\<bar> < 1 / 2 ^ 45"
    unfolding q_def .
  have big: "130 < overflow_threshold" unfolding overflow_threshold_def by simp
  have small: "(1 :: real) / 2 ^ 53 \<le> 1" "(1 :: real) / 2 ^ 47 \<le> 1" by simp_all
  from qb big small show "\<bar>round_binary64 x\<bar> < overflow_threshold"
    unfolding q_def by linarith
  from r q128 small have "\<bar>round_binary64 (q * 100)\<bar> < 130"
    by linarith
  with big show "\<bar>round_binary64 (round_binary64 x * 100)\<bar> < overflow_threshold"
    unfolding q_def by linarith
qed

lemma success_rate_float:
  assumes "0 \<le> s" "0 \<le> f" "s + f \<noteq> 0"
  shows "py_truediv s (s + f) = Inr (round_binary64 (real_of_int s / real_of_int (s + f)))"
    and "success_rate s f =
      Inr (PyFloat (Finite (round_binary64
        (round_binary64 (real_of_int s / real_of_int (s + f)) * 100))))"
proof -
  note q = quotient_rounding [OF assms]
  from assms q(3) show d: "py_truediv s (s + f) =
      Inr (round_binary64 (real_of_int s / real_of_int (s + f)))"
    by (simp add: py_truediv_def Let_def)
  from assms have "s + f > 0" by simp
  with d q(4) show "success_rate s f =
      Inr (PyFloat (Finite (round_binary64
        (round_binary64 (real_of_int s / real_of_int (s + f)) * 100))))"
    by (simp add: success_rate_def float_mul_def Let_def)
qed

lemma success_rate_nothing_executed: "success_rate 0 0 = Inr (PyInt 0)"
  by (simp add: success_rate_def)

lemma round_half_even_57: "round_half_even (57 * 2 ^ 53 / 100) = 5134103575202365"
  by (simp add: round_half_even_def Let_def)

lemma round_binary64_57: "round_binary64 (57 / 100) = 5134103575202365 / 2 ^ 53"
proof -
  have b: "binade (57 / 100) = - 1"
    by (rule binade_eq) (simp_all add: powr_minus)
  have u: "2 powr real_of_int (- 1 - 52) = 1 / 2 ^ 53"
    by (simp add: powr_minus powr_numeral field_simps)
  have "round_binary64 (57 / 100) =
      real_of_int (round_half_even (57 / 100 / (1 / 2 ^ 53))) * (1 / 2 ^ 53)"
    unfolding round_binary64_def Let_def b u by simp
  also have "57 / 100 / (1 / 2 ^ 53) = (57 * 2 ^ 53 / 100 :: real)" by simp
  finally show ?thesis unfolding round_half_even_57 by simp
qed

lemma round_half_even_5700:
  "round_half_even (5134103575202365 * 100 / 2 ^ 6) = 8022036836253695"
  by (simp add: round_half_even_def Let_def)

lemma round_binary64_5700:
  "round_binary64 (round_binary64 (57 / 100) * 100) = 8022036836253695 / 2 ^ 47"
proof -
  have b: "binade (5134103575202365 / 2 ^ 53 * 100) = 5"
    by (rule binade_eq) (simp_all add: powr_numeral)
  have u: "2 powr real_of_int (5 - 52) = 1 / 2 ^ 47"
    by (simp add: powr_minus powr_numeral field_simps)
  have "round_binary64 (5134103575202365 / 2 ^ 53 * 100) =
      real_of_int (round_half_even (5134103575202365 / 2 ^ 53 * 100 / (1 / 2 ^ 47))) *
        (1 / 2 ^ 47)"
    unfolding round_binary64_def Let_def b u by simp
  also have "5134103575202365 / 2 ^ 53 * 100 / (1 / 2 ^ 47) =
      (5134103575202365 * 100 / 2 ^ 6 :: real)" by simp
  finally show ?thesis unfolding round_half_even_5700 round_binary64_57 by simp
qed

text \<open>
  C10: for counters that are not negative the summary is computed without an
  exception.  When nothing was executed the rate is the integer 0 and nothing is
  divided.  Otherwise the division raises neither \<open>ZeroDivisionError\<close> nor
  \<open>OverflowError\<close>, and the rate is \<open>successful / (successful + failed) * 100\<close> as
  Python evaluates it: the quotient rounded to a float, times 100, rounded again; it is
  finite and differs from the exact value by less than \<open>2 ^ -45\<close>.  In both cases
  \<open>print_final_summary\<close> returns after printing that rate.
\<close>

theorem summary_total:
  "0 \<le> s \<Longrightarrow> 0 \<le> f \<Longrightarrow>
     (s + f = 0 \<longrightarrow> success_rate s f = Inr (PyInt 0)) \<and>
     (s + f \<noteq> 0 \<longrightarrow>
        py_truediv s (s + f) = Inr (round_binary64 (real_of_int s / real_of_int (s + f))) \<and>
        success_rate s f =
          Inr (PyFloat (Finite (round_binary64
            (round_binary64 (real_of_int s / real_of_int (s + f)) * 100)))) \<and>
        \<bar>round_binary64 (round_binary64 (real_of_int s / real_of_int (s + f)) * 100) -
           real_of_int s / real_of_int (s + f) * 100\<bar> < 1 / 2 ^ 45) \<and>
     (\<exists>rate. success_rate s f = Inr rate \<and>
        print_final_summary now s f planned st =
          (None, emit (Summary s f rate (now - session_start_time st)) st))"
proof -
  assume nn: "0 \<le> s" "0 \<le> f"
  have a: "success_rate s f = Inr (PyInt 0)" if "s + f = 0"
    using that nn by (simp add: success_rate_def)
  have b: "py_truediv s (s + f) = Inr (round_binary64 (real_of_int s / real_of_int (s + f))) \<and>
        success_rate s f =
          Inr (PyFloat (Finite (round_binary64
            (round_binary64 (real_of_int s / real_of_int (s + f)) * 100)))) \<and>
        \<bar>round_binary64 (round_binary64 (real_of_int s / real_of_int (s + f)) * 100) -
           real_of_int s / real_of_int (s + f) * 100\<bar> < 1 / 2 ^ 45"
    if "s + f \<noteq> 0"
    using success_rate_float [OF nn that] quotient_rounding(2) [OF nn that] by simp
  from a b obtain rate where r: "success_rate s f = Inr rate"
    by (cases "s + f = 0") auto
  then have "print_final_summary now s f planned st =
          (None, emit (Summary s f rate (now - session_start_time st)) st)"
    by (simp add: print_final_summary_def)
  with a b r show ?thesis by blast
qed

theorem summary_total_witness:
  "success_rate 0 0 = Inr (PyInt 0) \<and>
   success_rate 57 43 = Inr (PyFloat (Finite (8022036836253695 / 2 ^ 47))) \<and>
   fst (print_final_summary 60 57 43 100 ready_agent) = None"
proof -
  note z = summary_total [of 0 0 60 100 ready_agent, THEN conjunct1]
  note t = summary_total [of 57 43 60 100 ready_agent]
  from t have "success_rate 57 43 =
      Inr (PyFloat (Finite (round_binary64 (round_binary64 (57 / 100) * 100))))"
    by auto
  then have r: "success_rate 57 43 = Inr (PyFloat (Finite (8022036836253695 / 2 ^ 47)))"
    unfolding round_binary64_5700 .
  from t have p: "fst (print_final_summary 60 57 43 100 ready_agent) = None"
    by auto
  from z have "success_rate 0 0 = Inr (PyInt 0)" by simp
  with r p show ?thesis by blast
qed

section \<open>Executing one search\<close>

lemma first_exn_append:
  "first_exn (xs @ ys) = (case first_exn xs of None \<Rightarrow> first_exn ys | Some e \<Rightarrow> Some e)"
  by (induction xs rule: first_exn.induct) auto

lemma execute_search_timeout:
  "search_body w q s = (Inl (TimeoutException m), s1) \<Longrightarrow>
   execute_search w q s =
     (Inr (False, ''timeout'', clock_end w - clock_start w), log ERROR (SearchTimeout q) s1)"
  by (simp add: execute_search_def Let_def)

lemma execute_search_error:
  "search_body w q s = (Inl (OtherException m), s1) \<Longrightarrow>
   execute_search w q s =
     (Inr (False, ''error: '' @ m, clock_end w - clock_start w),
      log ERROR (SearchFailed (OtherException m)) s1)"
  by (simp add: execute_search_def Let_def)

lemma execute_search_success:
  "search_body w q s = (Inr url, s1) \<Longrightarrow>
   execute_search w q s =
     (Inr (True, url, clock_end w - clock_start w),
      log INFO (SearchCompleted (clock_end w - clock_start w)) s1)"
  by (simp add: execute_search_def Let_def)

lemma execute_search_raises:
  "fst (execute_search w q s) = Inl e \<Longrightarrow>
   e = KeyboardInterrupt \<and> fst (search_body w q s) = Inl KeyboardInterrupt"
  by (auto simp: execute_search_def Let_def split: prod.splits sum.splits exn.splits)

lemma execute_search_time:
  "fst (execute_search w q s) = Inr (ok, loc, dt) \<Longrightarrow> dt = clock_end w - clock_start w"
  by (auto simp: execute_search_def Let_def split: prod.splits sum.splits exn.splits)

lemma search_body_steps:
  "first_exn [get_page w, wait_form w, find_box w, clear_box w,
              human_like_typing (send_key w) 0 q, submit w, wait_results w] = Some e \<Longrightarrow>
   search_body w q s = (Inl e, log INFO Navigating s)"
  by (simp add: search_body_def)

text \<open>
  A number with a mantissa below \<open>2 ^ 53\<close> and an exponent of the binary64 range is a
  float, and rounding leaves it as it is.  So the difference of two clock readings with
  a common exponent is computed exactly.
\<close>

lemma round_half_even_int: "round_half_even (real_of_int n) = n"
  by (simp add: round_half_even_def Let_def)

lemma round_binary64_exact:
  assumes m: "\<bar>m\<bar> < 2 ^ 53" and e: "- 1074 \<le> e"
  shows "round_binary64 (real_of_int m * 2 powr real_of_int e) =
         real_of_int m * 2 powr real_of_int e"
proof (cases "m = 0")
  case True
  then show ?thesis by (simp add: round_binary64_def)
next
  case False
  define x where "x = real_of_int m * 2 powr real_of_int e"
  from False have x0: "x \<noteq> 0" by (simp add: x_def)
  from m have "\<bar>real_of_int m\<bar> < 2 ^ 53"
    by (metis of_int_abs of_int_less_numeral_power_cancel_iff)
  then have "\<bar>x\<bar> < 2 ^ 53 * 2 powr real_of_int e"
    by (simp add: x_def abs_mult)
  also have "\<dots> = 2 powr real_of_int (e + 52 + 1)"
    by (simp add: powr_add powr_numeral)
  finally have "\<bar>x\<bar> < 2 powr real_of_int (e + 52 + 1)" .
  from binade_le [OF x0 this] e have b: "binade x \<le> e + 52" by simp
  define k where "k = nat (e + 52 - binade x)"
  from b have k: "int k = e + 52 - binade x" by (simp add: k_def)
  define u where "u = 2 powr real_of_int (binade x - 52)"
  have "2 powr real_of_int e = 2 powr real_of_int (int k) * u"
    unfolding u_def k by (simp flip: powr_add)
  then have eu: "2 powr real_of_int e = 2 ^ k * u"
    by (simp add: powr_realpow)
  have u: "u > 0" by (simp add: u_def)
  from eu u have "x / u = real_of_int (m * 2 ^ k)" by (simp add: x_def)
  then have "round_half_even (x / u) = m * 2 ^ k" by (simp only: round_half_even_int)
  then have "round_binary64 x = real_of_int (m * 2 ^ k) * u"
    using x0 by (simp add: round_binary64_def Let_def u_def)
  also have "\<dots> = x" using eu by (simp add: x_def)
  finally show ?thesis unfolding x_def .
qed

lemma round_binary64_int:
  "\<bar>m\<bar> < 2 ^ 53 \<Longrightarrow> round_binary64 (real_of_int m) = real_of_int m"
  using round_binary64_exact [of m 0] by simp

lemma clock_difference_exact:
  assumes "0 \<le> a" "a < 2 ^ 53" "0 \<le> b" "b < 2 ^ 53" "- 1074 \<le> e"
  shows "round_binary64
           (real_of_int b * 2 powr real_of_int e - real_of_int a * 2 powr real_of_int e) =
         real_of_int b * 2 powr real_of_int e - real_of_int a * 2 powr real_of_int e"
proof -
  from assms have "\<bar>b - a\<bar> < 2 ^ 53" by simp
  from round_binary64_exact [OF this assms(5)] show ?thesis
    by (simp add: left_diff_distrib)
qed

text \<open>
  C7, as the code has it: unless it is interrupted, \<open>execute_search\<close> returns an
  outcome whose elapsed time is the later reading of \<open>time.time()\<close> minus the earlier one,
  which is not negative when the clock has not been set back between the two.  A
  \<open>TimeoutException\<close> leaving the \<open>try\<close> block, in particular from either page wait,
  gives \<open>(False, timeout, elapsed)\<close>; any other \<open>Exception\<close> with text \<open>m\<close> gives
  \<open>(False, error: m, elapsed)\<close>.  The only exception that leaves \<open>execute_search\<close> is
  \<open>KeyboardInterrupt\<close>, which is of neither class.
\<close>

theorem execute_search_returns_outcome:
  "(\<forall>m s1. search_body w q s = (Inl (TimeoutException m), s1) \<longrightarrow>
      execute_search w q s =
        (Inr (False, ''timeout'', clock_end w - clock_start w),
         log ERROR (SearchTimeout q) s1)) \<and>
   (\<forall>m s1. search_body w q s = (Inl (OtherException m), s1) \<longrightarrow>
      execute_search w q s =
        (Inr (False, ''error: '' @ m, clock_end w - clock_start w),
         log ERROR (SearchFailed (OtherException m)) s1)) \<and>
   (\<forall>e. fst (execute_search w q s) = Inl e \<longrightarrow>
      e = KeyboardInterrupt \<and> fst (search_body w q s) = Inl KeyboardInterrupt) \<and>
   (\<forall>ok loc dt. fst (execute_search w q s) = Inr (ok, loc, dt) \<longrightarrow>
      dt = clock_end w - clock_start w \<and> (clock_start w \<le> clock_end w \<longrightarrow> 0 \<le> dt)) \<and>
   (\<forall>m. get_page w = None \<and> wait_form w = Some (TimeoutException m) \<longrightarrow>
      fst (execute_search w q s) = Inr (False, ''timeout'', clock_end w - clock_start w)) \<and>
   (\<forall>m. first_exn [get_page w, wait_form w, find_box w, clear_box w,
                    human_like_typing (send_key w) 0 q, submit w] = None \<and>
         wait_results w = Some (TimeoutException m) \<longrightarrow>
      fst (execute_search w q s) = Inr (False, ''timeout'', clock_end w - clock_start w))"
proof -
  have 4: "dt = clock_end w - clock_start w \<and> (clock_start w \<le> clock_end w \<longrightarrow> 0 \<le> dt)"
    if "fst (execute_search w q s) = Inr (ok, loc, dt)" for ok loc dt
    using execute_search_time [OF that] by simp
  have 5: "fst (execute_search w q s) = Inr (False, ''timeout'', clock_end w - clock_start w)"
    if "get_page w = None \<and> wait_form w = Some (TimeoutException m)" for m
  proof -
    from that have "search_body w q s = (Inl (TimeoutException m), log INFO Navigating s)"
      by (intro search_body_steps) simp
    then show ?thesis by (simp add: execute_search_timeout)
  qed
  have 6: "fst (execute_search w q s) = Inr (False, ''timeout'', clock_end w - clock_start w)"
    if "first_exn [get_page w, wait_form w, find_box w, clear_box w,
                   human_like_typing (send_key w) 0 q, submit w] = None \<and>
        wait_results w = Some (TimeoutException m)" for m
  proof -
    have "first_exn ([get_page w, wait_form w, find_box w, clear_box w,
                      human_like_typing (send_key w) 0 q, submit w] @ [wait_results w]) =
            Some (TimeoutException m)"
      unfolding first_exn_append using that by simp
    then have "search_body w q s = (Inl (TimeoutException m), log INFO Navigating s)"
      by (intro search_body_steps) simp
    then show ?thesis by (simp add: execute_search_timeout)
  qed
  have 3: "e = KeyboardInterrupt \<and> fst (search_body w q s) = Inl KeyboardInterrupt"
    if "fst (execute_search w q s) = Inl e" for e
    using that by (rule execute_search_raises)
  from 3 4 5 6 execute_search_timeout [of w q s] execute_search_error [of w q s]
  show ?thesis by blast
qed

theorem execute_search_returns_outcome_witness:
  "fst (execute_search search_timeout ''cats'' ready_agent) = Inr (False, ''timeout'', 15) \<and>
   fst (execute_search search_typing_fails ''cats'' ready_agent) =
     Inr (False, ''error: element not interactable'', 3)"
proof -
  have p: "get_page search_timeout = None \<and>
           wait_form search_timeout = Some (TimeoutException ''Message: '')"
    by (simp add: search_timeout_def search_ok_def)
  note t = execute_search_returns_outcome [of search_timeout "''cats''" ready_agent]
  note t5 = t [THEN conjunct2, THEN conjunct2, THEN conjunct2, THEN conjunct2, THEN conjunct1,
      rule_format, OF p]
  have b: "search_body search_typing_fails ''cats'' ready_agent =
             (Inl (OtherException ''element not interactable''), log INFO Navigating ready_agent)"
    by (simp add: search_body_def search_typing_fails_def search_ok_def)
  note u = execute_search_returns_outcome [of search_typing_fails "''cats''" ready_agent]
  note u2 = u [THEN conjunct2, THEN conjunct1, rule_format, OF b]
  from t5 u2 show ?thesis
    by (simp add: search_timeout_def search_typing_fails_def search_ok_def)
qed

text \<open>
  C7 as stated fails: the elapsed time is the difference of two readings of the wall
  clock, and here the clock is set back by a second during a search that succeeds.
  The float subtraction gives the same \<open>- 1\<close>.
\<close>

theorem clock_set_back_negative_time:
  "fst (execute_search search_clock_set_back ''cats'' ready_agent) =
     Inr (True, ''https://www.bing.com/search?q=cats'', - 1) \<and>
   round_binary64 (clock_end search_clock_set_back - clock_start search_clock_set_back) = - 1 \<and>
   \<not> (0 :: real) \<le> - 1"
proof -
  have "round_binary64 (- 1) = - 1"
    using round_binary64_int [of "- 1"] by simp
  then show ?thesis
    by (simp add: search_body_def execute_search_def simulate_human_behavior_def
        behavior_steps_def submit_def Let_def search_clock_set_back_def search_ok_def
        behavior_ok_def)
qed

lemma human_like_typing_cats:
  "human_like_typing (send_key search_typing_fails) 0 ''cats'' =
     Some (OtherException ''element not interactable'')"
  by (simp add: search_typing_fails_def search_ok_def)

text \<open>
  C8, as the code has it: an \<open>Exception\<close> raised by the pointer moves or the scrolling
  is caught in \<open>simulate_human_behavior\<close>, logged at debug severity and nothing else, and
  the search still succeeds.  The typing routine has no handler: an \<open>Exception\<close> raised
  by \<open>send_keys\<close> reaches the handlers of \<open>execute_search\<close>, is logged at error severity
  and the search fails (\<open>error: m\<close>, or \<open>timeout\<close> for a \<open>TimeoutException\<close>).
\<close>

theorem behavior_failure_not_fatal:
  "first_exn [get_page w, wait_form w, find_box w, clear_box w] = None \<Longrightarrow>
   dt = clock_end w - clock_start w \<Longrightarrow>
     (\<forall>e. behavior_steps (behavior w) = Some e \<and> is_Exception e \<longrightarrow>
        simulate_human_behavior (behavior w) s = (None, log DEBUG (BehaviorFailed e) s)) \<and>
     (\<forall>e url. behavior_steps (behavior w) = Some e \<and> is_Exception e \<and>
         human_like_typing (send_key w) 0 q = None \<and> submit w = None \<and>
         wait_results w = None \<and> read_url w = Inr url \<longrightarrow>
        execute_search w q s =
          (Inr (True, url, dt),
           log INFO (SearchCompleted dt)
             (log DEBUG (BehaviorFailed e) (log INFO Navigating s)))) \<and>
     (\<forall>m. human_like_typing (send_key w) 0 q = Some (OtherException m) \<longrightarrow>
        execute_search w q s =
          (Inr (False, ''error: '' @ m, dt),
           log ERROR (SearchFailed (OtherException m)) (log INFO Navigating s))) \<and>
     (\<forall>m. human_like_typing (send_key w) 0 q = Some (TimeoutException m) \<longrightarrow>
        execute_search w q s =
          (Inr (False, ''timeout'', dt),
           log ERROR (SearchTimeout q) (log INFO Navigating s)))"
proof -
  assume pre: "first_exn [get_page w, wait_form w, find_box w, clear_box w] = None"
    and dt: "dt = clock_end w - clock_start w"
  have typing: "search_body w q s = (Inl e, log INFO Navigating s)"
    if "human_like_typing (send_key w) 0 q = Some e" for e
  proof -
    have "first_exn ([get_page w, wait_form w, find_box w, clear_box w] @
            [human_like_typing (send_key w) 0 q, submit w, wait_results w]) = Some e"
      unfolding first_exn_append using pre that by simp
    then show ?thesis by (intro search_body_steps) simp
  qed
  have a: "simulate_human_behavior (behavior w) s = (None, log DEBUG (BehaviorFailed e) s)"
    if "behavior_steps (behavior w) = Some e \<and> is_Exception e" for e s
    using that by (simp add: simulate_human_behavior_def)
  have b: "execute_search w q s =
          (Inr (True, url, dt),
           log INFO (SearchCompleted dt)
             (log DEBUG (BehaviorFailed e) (log INFO Navigating s)))"
    if h: "behavior_steps (behavior w) = Some e \<and> is_Exception e \<and>
         human_like_typing (send_key w) 0 q = None \<and> submit w = None \<and>
         wait_results w = None \<and> read_url w = Inr url" for e url
  proof -
    have "first_exn ([get_page w, wait_form w, find_box w, clear_box w] @
            [human_like_typing (send_key w) 0 q, submit w, wait_results w]) = None"
      unfolding first_exn_append using pre h by simp
    then have "first_exn [get_page w, wait_form w, find_box w, clear_box w,
            human_like_typing (send_key w) 0 q, submit w, wait_results w] = None"
      by simp
    with h a [of e "log INFO Navigating s"]
    have "search_body w q s = (Inr url, log DEBUG (BehaviorFailed e) (log INFO Navigating s))"
      by (simp add: search_body_def Let_def)
    then show ?thesis by (simp add: execute_search_success dt)
  qed
  have c: "execute_search w q s =
          (Inr (False, ''error: '' @ m, dt),
           log ERROR (SearchFailed (OtherException m)) (log INFO Navigating s))"
    if "human_like_typing (send_key w) 0 q = Some (OtherException m)" for m
    using typing [OF that] by (simp add: execute_search_error dt)
  have d: "execute_search w q s =
          (Inr (False, ''timeout'', dt),
           log ERROR (SearchTimeout q) (log INFO Navigating s))"
    if "human_like_typing (send_key w) 0 q = Some (TimeoutException m)" for m
    using typing [OF that] by (simp add: execute_search_timeout dt)
  from a b c d show ?thesis by blast
qed

theorem behavior_failure_not_fatal_witness:
  "execute_search search_behavior_fails ''cats'' ready_agent =
     (Inr (True, ''https://www.bing.com/search?q=cats'', 3),
      log INFO (SearchCompleted 3)
        (log DEBUG (BehaviorFailed (OtherException ''javascript error''))
           (log INFO Navigating ready_agent)))"
proof -
  have pre: "first_exn [get_page search_behavior_fails, wait_form search_behavior_fails,
               find_box search_behavior_fails, clear_box search_behavior_fails] = None"
    by (simp add: search_behavior_fails_def search_ok_def)
  have dt: "(3::real) = clock_end search_behavior_fails - clock_start search_behavior_fails"
    by (simp add: search_behavior_fails_def search_ok_def)
  have h: "behavior_steps (behavior search_behavior_fails) =
             Some (OtherException ''javascript error'') \<and>
           is_Exception (OtherException ''javascript error'') \<and>
           human_like_typing (send_key search_behavior_fails) 0 ''cats'' = None \<and>
           submit search_behavior_fails = None \<and>
           wait_results search_behavior_fails = None \<and>
           read_url search_behavior_fails = Inr ''https://www.bing.com/search?q=cats''"
    by (simp add: search_behavior_fails_def search_ok_def behavior_ok_def behavior_steps_def
        submit_def)
  note t = behavior_failure_not_fatal [OF pre dt, where q = "''cats''" and s = ready_agent]
  from t [THEN conjunct2, THEN conjunct1, rule_format, OF h] show ?thesis .
qed

text \<open>
  C8 as stated fails for the typing routine: the third \<open>send_keys\<close> call raises, the
  search fails with an error logged at error severity, while the same search without
  that exception succeeds.
\<close>

theorem typing_failure_fails_search:
  "human_like_typing (send_key search_typing_fails) 0 ''cats'' =
     Some (OtherException ''element not interactable'') \<and>
   execute_search search_typing_fails ''cats'' ready_agent =
     (Inr (False, ''error: element not interactable'', 3),
      log ERROR (SearchFailed (OtherException ''element not interactable''))
        (log INFO Navigating ready_agent)) \<and>
   fst (execute_search search_ok ''cats'' ready_agent) =
     Inr (True, ''https://www.bing.com/search?q=cats'', 3)"
  by (simp add: search_body_def execute_search_def simulate_human_behavior_def
      behavior_steps_def submit_def Let_def search_typing_fails_def search_ok_def
      behavior_ok_def)

section \<open>Rows of the run log\<close>

lemma csv_rows_emit [simp]: "csv_rows (emit e s) = csv_rows s"
  by (simp add: emit_def)

lemma csv_rows_log [simp]: "csv_rows (log l m s) = csv_rows s"
  by (simp add: log_def)

lemma attempt_query_rows:
  "attempt_query w i s = (r, s') \<Longrightarrow> csv_rows s' = csv_rows s"
  by (auto simp: attempt_query_def Let_def split: sum.splits if_splits)

lemma attempts_rows:
  "attempts g is s = (r, s') \<Longrightarrow> csv_rows s' = csv_rows s"
proof (induction "is" arbitrary: s)
  case Nil
  then show ?case by simp
next
  case (Cons i "is")
  obtain r1 s1 where a: "attempt_query (attempt_w g i) i s = (r1, s1)"
    by (cases "attempt_query (attempt_w g i) i s")
  then have h: "csv_rows s1 = csv_rows s" by (rule attempt_query_rows)
  show ?case
  proof (cases r1)
    case NextAttempt
    with a Cons.prems have "attempts g is s1 = (r, s')" by simp
    from Cons.IH [OF this] h show ?thesis by simp
  qed (use a Cons.prems h in auto)
qed

lemma generate_rows:
  "generate_search_query g s = (r, s') \<Longrightarrow> csv_rows s' = csv_rows s"
proof -
  assume a: "generate_search_query g s = (r, s')"
  obtain r1 s1 where b: "attempts g [0..<3] s = (r1, s1)"
    by (cases "attempts g [0..<3] s")
  from b have "csv_rows s1 = csv_rows s" by (rule attempts_rows)
  with a b show ?thesis
    by (cases r1) (auto simp: generate_search_query_def fallback_def Let_def)
qed

lemma simulate_rows:
  "simulate_human_behavior b s = (r, s') \<Longrightarrow> csv_rows s' = csv_rows s"
  by (auto simp: simulate_human_behavior_def split: option.splits if_splits)

lemma search_body_rows:
  "search_body w q s = (r, s') \<Longrightarrow> csv_rows s' = csv_rows s"
  by (auto simp: search_body_def Let_def split: option.splits prod.splits sum.splits
      dest!: simulate_rows)

lemma execute_search_rows:
  "execute_search w q s = (r, s') \<Longrightarrow> csv_rows s' = csv_rows s"
  by (auto simp: execute_search_def Let_def split: prod.splits sum.splits exn.splits
      dest!: search_body_rows)

lemma random_delay_rows:
  "random_delay w s = (r, s') \<Longrightarrow> csv_rows s' = csv_rows s"
  by (auto simp: random_delay_def Let_def split: if_splits option.splits)

lemma initialize_browser_rows:
  "initialize_browser w s = (r, s') \<Longrightarrow> csv_rows s' = csv_rows s"
  by (auto simp: initialize_browser_def reraise_logged_def Let_def
      split: option.splits if_splits)

lemma recover_rows:
  "recover_from_browser_crash w s = (r, s') \<Longrightarrow> csv_rows s' = csv_rows s"
  by (auto simp: recover_from_browser_crash_def Let_def
      split: option.splits if_splits prod.splits dest!: initialize_browser_rows)

lemma log_search_result_written:
  "log_search_result st wr q c ty ok url dt s = (None, s') \<Longrightarrow>
     wr = None \<and>
     s' = s\<lparr>csv_rows := csv_rows s @
            [\<lparr>timestamp = st, generated_query = q, search_url = url,
              response_status = (if ok then ''success'' else ''failed''),
              execution_time = dt, category = c, query_type = ty\<rparr>]\<rparr>"
  by (auto simp: log_search_result_def Let_def split: option.splits)

lemma log_search_result_raises:
  "log_search_result st (Some e) q c ty ok url dt s = (Some e, s)"
  by (simp add: log_search_result_def)

lemma execute_search_locator:
  "execute_search w q s0 = (Inr (ok, url, dt), s) \<Longrightarrow> \<not> ok \<Longrightarrow>
     url = ''timeout'' \<or> (\<exists>m. url = ''error: '' @ m)"
  by (auto simp: execute_search_def Let_def split: prod.splits sum.splits exn.splits)

text \<open>
  C1, as the code has it: a row that is appended carries \<open>success\<close> in the
  \<open>response_status\<close> column when the search succeeded and \<open>failed\<close> otherwise.  The
  kind of failure, \<open>timeout\<close> or \<open>error: m\<close>, is what \<open>execute_search\<close> returned as the
  locator, and it is written to the \<open>search_url\<close> column.
\<close>

theorem logged_status:
  "log_search_result st wr q c ty ok url dt s = (None, s') \<Longrightarrow>
     (\<exists>r. csv_rows s' = csv_rows s @ [r] \<and>
          response_status r = (if ok then ''success'' else ''failed'') \<and>
          search_url r = url \<and> timestamp r = st \<and> generated_query r = q) \<and>
     (\<forall>w s0. execute_search w q s0 = (Inr (ok, url, dt), s) \<and> \<not> ok \<longrightarrow>
          url = ''timeout'' \<or> (\<exists>m. url = ''error: '' @ m))"
proof -
  assume "log_search_result st wr q c ty ok url dt s = (None, s')"
  from log_search_result_written [OF this]
  have "\<exists>r. csv_rows s' = csv_rows s @ [r] \<and>
          response_status r = (if ok then ''success'' else ''failed'') \<and>
          search_url r = url \<and> timestamp r = st \<and> generated_query r = q"
    by simp
  then show ?thesis using execute_search_locator by blast
qed

theorem logged_status_witness:
  "map response_status
     (csv_rows (snd (log_search_result ''2025-01-01T10:01:00'' None ''cats'' ''travel''
        ''question'' False ''timeout'' 15 ready_agent))) = [''failed''] \<and>
   map search_url
     (csv_rows (snd (log_search_result ''2025-01-01T10:01:00'' None ''cats'' ''travel''
        ''question'' False ''timeout'' 15 ready_agent))) = [''timeout'']"
proof -
  obtain s' where
    h: "log_search_result ''2025-01-01T10:01:00'' None ''cats'' ''travel''
          ''question'' False ''timeout'' 15 ready_agent = (None, s')"
    by (simp add: log_search_result_def)
  have e: "csv_rows ready_agent = []" by (simp add: ready_agent_def)
  from logged_status [OF h, THEN conjunct1] e h show ?thesis by auto
qed

text \<open>
  C1 as stated fails: the row logged for a search that timed out has the status
  \<open>failed\<close>, not \<open>timeout\<close>; \<open>timeout\<close> stands in the \<open>search_url\<close> column.
\<close>

theorem timeout_row_status_failed:
  "fst (execute_search search_timeout ''Best hiking trails''
         (snd (generate_search_query gen_ok ready_agent))) =
     Inr (False, ''timeout'', 15) \<and>
   map response_status
     (csv_rows (snd (snd (try_cycle cycle_timeout 1 1 (no_tally, ready_agent))))) =
     [''failed''] \<and>
   map search_url
     (csv_rows (snd (snd (try_cycle cycle_timeout 1 1 (no_tally, ready_agent))))) =
     [''timeout''] \<and>
   ''failed'' \<noteq> ''timeout''"
  by (simp add: try_cycle_def cycle_timeout_def cycle_ok_def no_tally_def
      generate_search_query_def gen_ok_def attempt_ok_def attempt_query_def
      Let_def choice_def categories_def query_types_def upt_rec log_def emit_def
      clean_def strip_def strip_char_def strip_where_def isspace_def
      validate_query_def forbidden_terms_def lower_def lower_char_def
      search_body_def execute_search_def search_timeout_def search_ok_def
      log_search_result_def ready_agent_def)

section \<open>Cycles that run to their end\<close>

lemma cycle_step_exception:
  assumes tc: "try_cycle w k n (t, s) = (Some e, t1, s1)" and ex: "is_Exception e"
  shows "cycle_step w k n (t, s) =
     (let s2 = log ERROR (CycleFailed k e) s1;
          t2 = t1\<lparr>failed_searches := failed_searches t1 + 1\<rparr>
      in if session_fault e then
           (case recover_from_browser_crash (recovery w) s2 of
              (Inr True, s3) \<Rightarrow> (Continue, t2, s3)
            | (Inr False, s3) \<Rightarrow> (Break, t2, log ERROR CannotContinue s3)
            | (Inl e', s3) \<Rightarrow> (Propagate e', t2, s3))
         else (Continue, t2, s2))"
  using tc ex by (simp add: cycle_step_def)

lemma after_row_rows:
  "(case first_exn [po, pp] of
      Some e \<Rightarrow> (Some e, t', s3)
    | None \<Rightarrow> if k < n then (case random_delay d s3 of (r, s4) \<Rightarrow> (r, t', s4))
              else (None, t', s3)) = (r, t'', s') \<Longrightarrow>
   csv_rows s' = csv_rows s3 \<and> t'' = t'"
  by (auto split: option.splits if_splits prod.splits dest: random_delay_rows)

lemma try_cycle_row:
  assumes pc: "print_cycle w = None" and wr: "csv_write w = None"
    and tc: "try_cycle w k n (t, s) = (r, t', s')"
    and ex: "\<forall>e. r = Some e \<longrightarrow> is_Exception e"
  shows "\<exists>row. csv_rows s' = csv_rows s @ [row] \<and> timestamp row = stamp w"
proof -
  obtain g s1 where g: "generate_search_query (gen w) s = (g, s1)"
    by (cases "generate_search_query (gen w) s")
  show ?thesis
  proof (cases g)
    case (Inl e)
    with g have "e = KeyboardInterrupt" by (auto dest: generate_raises)
    moreover from g Inl pc tc have "r = Some e" by (simp add: try_cycle_def)
    ultimately show ?thesis using ex by simp
  next
    case (Inr qct)
    obtain q c ty where qct: "qct = (q, c, ty)" by (cases qct)
    obtain x s2 where x: "execute_search (search w) q s1 = (x, s2)"
      by (cases "execute_search (search w) q s1")
    show ?thesis
    proof (cases x)
      case (Inl e)
      with x execute_search_raises [of "search w" q s1 e] have "e = KeyboardInterrupt"
        by simp
      moreover from g Inr qct x Inl pc tc have "r = Some e" by (simp add: try_cycle_def)
      ultimately show ?thesis using ex by simp
    next
      case out: (Inr o3)
      obtain ok url dt where o3: "o3 = (ok, url, dt)" by (cases o3)
      define row where "row = \<lparr>timestamp = stamp w, generated_query = q, search_url = url,
        response_status = (if ok then ''success'' else ''failed''),
        execution_time = dt, category = c, query_type = ty\<rparr>"
      define s3 where "s3 = s2\<lparr>csv_rows := csv_rows s2 @ [row]\<rparr>"
      have l: "log_search_result (stamp w) (csv_write w) q c ty ok url dt s2 = (None, s3)"
        by (simp add: log_search_result_def wr s3_def row_def)
      from generate_rows [OF g] execute_search_rows [OF x]
      have r3: "csv_rows s3 = csv_rows s @ [row]" by (simp add: s3_def)
      from g Inr qct x out o3 l pc tc
      have "(case first_exn [print_outcome w, print_progress w] of
               Some e \<Rightarrow>
                 (Some e,
                  if ok then t\<lparr>successful_searches := successful_searches t + 1\<rparr>
                  else t\<lparr>failed_searches := failed_searches t + 1\<rparr>, s3)
             | None \<Rightarrow>
                 if k < n then
                   (case random_delay (delay w) s3 of
                      (r, s4) \<Rightarrow>
                        (r, if ok then t\<lparr>successful_searches := successful_searches t + 1\<rparr>
                            else t\<lparr>failed_searches := failed_searches t + 1\<rparr>, s4))
                 else
                   (None,
                    if ok then t\<lparr>successful_searches := successful_searches t + 1\<rparr>
                    else t\<lparr>failed_searches := failed_searches t + 1\<rparr>, s3)) = (r, t', s')"
        by (simp add: try_cycle_def Let_def)
      from after_row_rows [OF this] have "csv_rows s' = csv_rows s3" by simp
      with r3 show ?thesis by (auto simp: row_def)
    qed
  qed
qed

lemma cycle_step_continue:
  assumes "cycle_step w k n ts = (Continue, t', s')"
  shows "\<exists>r t1 s1. try_cycle w k n ts = (r, t1, s1) \<and>
           (\<forall>e. r = Some e \<longrightarrow> is_Exception e) \<and> csv_rows s' = csv_rows s1"
proof -
  obtain r t1 s1 where tc: "try_cycle w k n ts = (r, t1, s1)"
    by (cases "try_cycle w k n ts") auto
  from assms tc have "(\<forall>e. r = Some e \<longrightarrow> is_Exception e) \<and> csv_rows s' = csv_rows s1"
    by (auto simp: cycle_step_def Let_def
        split: option.splits if_splits prod.splits sum.splits bool.splits
        dest!: recover_rows)
  with tc show ?thesis by blast
qed

lemma run_cycles_rows:
  "run_cycles w n ks (t, s) = (Continue, t', s') \<Longrightarrow>
   \<forall>k \<in> set ks. print_cycle (w k) = None \<and> csv_write (w k) = None \<Longrightarrow>
   map timestamp (csv_rows s') = map timestamp (csv_rows s) @ map (\<lambda>k. stamp (w k)) ks"
proof (induction ks arbitrary: t s)
  case Nil
  then show ?case by simp
next
  case (Cons k ks)
  obtain f t1 s1 where st: "cycle_step (w k) k n (t, s) = (f, t1, s1)"
    by (cases "cycle_step (w k) k n (t, s)") auto
  with Cons.prems(1) have f: "f = Continue"
    and rest: "run_cycles w n ks (t1, s1) = (Continue, t', s')"
    by (cases f; simp)+
  from cycle_step_continue [OF st [unfolded f]] obtain r ta sa where
    tc: "try_cycle (w k) k n (t, s) = (r, ta, sa)"
    and ex: "\<forall>e. r = Some e \<longrightarrow> is_Exception e"
    and same: "csv_rows s1 = csv_rows sa"
    by blast
  from Cons.prems(2) have "print_cycle (w k) = None" "csv_write (w k) = None" by simp_all
  from try_cycle_row [OF this tc ex] same obtain row where
    "csv_rows s1 = csv_rows s @ [row]" "timestamp row = stamp (w k)"
    by auto
  moreover from Cons.prems(2)
  have "\<forall>k \<in> set ks. print_cycle (w k) = None \<and> csv_write (w k) = None" by simp
  from Cons.IH [OF rest this]
  have "map timestamp (csv_rows s') =
      map timestamp (csv_rows s1) @ map (\<lambda>k. stamp (w k)) ks" .
  ultimately show ?case by simp
qed

lemma try_cycle_no_row:
  assumes "print_cycle w \<noteq> None \<or> csv_write w \<noteq> None"
    and "try_cycle w k n (t, s) = (r, t', s')"
  shows "csv_rows s' = csv_rows s \<and> t' = t"
proof (cases "print_cycle w")
  case (Some e)
  with assms(2) show ?thesis by (simp add: try_cycle_def)
next
  case None
  with assms(1) obtain e where wr: "csv_write w = Some e" by auto
  obtain g s1 where g: "generate_search_query (gen w) s = (g, s1)"
    by (cases "generate_search_query (gen w) s")
  note r1 = generate_rows [OF g]
  show ?thesis
  proof (cases g)
    case (Inl e')
    with g None assms(2) r1 show ?thesis by (simp add: try_cycle_def)
  next
    case (Inr qct)
    obtain q c ty where qct: "qct = (q, c, ty)" by (cases qct)
    obtain x s2 where x: "execute_search (search w) q s1 = (x, s2)"
      by (cases "execute_search (search w) q s1")
    note r2 = execute_search_rows [OF x]
    from g Inr qct x None wr assms(2) r1 r2 show ?thesis
      by (cases x) (auto simp: try_cycle_def log_search_result_def)
  qed
qed

lemma cycle_step_no_row:
  assumes nr: "print_cycle w \<noteq> None \<or> csv_write w \<noteq> None"
    and tc: "try_cycle w k n (t, s) = (Some e, ta, sa)" and ex: "is_Exception e"
  shows "\<exists>f t2 s2. cycle_step w k n (t, s) = (f, t2, s2) \<and> csv_rows s2 = csv_rows s \<and>
           failed_searches t2 = failed_searches t + 1 \<and>
           successful_searches t2 = successful_searches t"
proof -
  from try_cycle_no_row [OF nr tc] have same: "csv_rows sa = csv_rows s" "ta = t" by simp_all
  obtain rr s3 where
    rc: "recover_from_browser_crash (recovery w) (log ERROR (CycleFailed k e) sa) = (rr, s3)"
    by (cases "recover_from_browser_crash (recovery w) (log ERROR (CycleFailed k e) sa)")
  from recover_rows [OF rc] same have r3: "csv_rows s3 = csv_rows s" by simp
  note step = cycle_step_exception [OF tc ex]
  show ?thesis
  proof (cases "session_fault e")
    case False
    with step same show ?thesis by (simp add: Let_def)
  next
    case True
    with step same rc r3 show ?thesis
      by (cases rr) (auto simp: Let_def split: bool.splits)
  qed
qed

lemmas scenario_defs =
  cycle_timeout_def cycle_ok_def cycle_print_fails_def
  cycle_browser_dead_def search_session_dead_def no_tally_def
  gen_ok_def attempt_ok_def search_timeout_def search_ok_def behavior_ok_def
  delay_quick_def recovery_ok_def launch_ok_def
  ready_agent_def demo_config_def

lemmas agent_defs =
  try_cycle_def cycle_step_def generate_search_query_def attempt_query_def
  Let_def choice_def categories_def query_types_def complexity_levels_def upt_rec
  log_def emit_def clean_def strip_def strip_char_def strip_where_def isspace_def
  validate_query_def forbidden_terms_def lower_def lower_char_def history_context_def
  last_n_def search_body_def execute_search_def simulate_human_behavior_def
  behavior_steps_def submit_def log_search_result_def random_delay_def session_fault_def
  recover_from_browser_crash_def initialize_browser_def reraise_logged_def

lemma upto_1_2: "[1..2::int] = [1, 2]"
  by (simp add: upto.simps)

lemma run_timeout_then_ok:
  "fst (run_cycles cycles_timeout_then_ok 2 [1..2] (no_tally, ready_agent)) = Continue"
  by (simp add: upto_1_2 cycles_timeout_then_ok_def scenario_defs agent_defs)

text \<open>
  C2, as the code has it: in a run over \<open>n\<close> cycles that all run to their end, the
  loop neither breaking nor left by an exception, and in which no cycle raises before
  its row is written, neither in the \<open>print\<close> calls that open the cycle nor in the
  append itself, each cycle appends exactly one row: the log gains exactly \<open>n\<close> rows, in
  the order of the cycles.  A cycle that raises an \<open>Exception\<close> in one of those two
  places increments the failure counter in the handler and the log gains no row.
\<close>

theorem one_row_per_completed_cycle:
  "run_cycles w n [1..n] (t, s) = (Continue, t', s') \<Longrightarrow>
   \<forall>k \<in> {1..n}. print_cycle (w k) = None \<and> csv_write (w k) = None \<Longrightarrow>
     map timestamp (csv_rows s') =
       map timestamp (csv_rows s) @ map (\<lambda>k. stamp (w k)) [1..n] \<and>
     length (csv_rows s') = length (csv_rows s) + nat n \<and>
     (\<forall>v k e t1 s1 ta sa.
        (print_cycle v \<noteq> None \<or> csv_write v \<noteq> None) \<and>
        try_cycle v k n (t1, s1) = (Some e, ta, sa) \<and> is_Exception e \<longrightarrow>
        (\<exists>f t2 s2. cycle_step v k n (t1, s1) = (f, t2, s2) \<and>
           csv_rows s2 = csv_rows s1 \<and>
           failed_searches t2 = failed_searches t1 + 1 \<and>
           successful_searches t2 = successful_searches t1))"
proof -
  assume run: "run_cycles w n [1..n] (t, s) = (Continue, t', s')"
    and pre: "\<forall>k \<in> {1..n}. print_cycle (w k) = None \<and> csv_write (w k) = None"
  from pre have "\<forall>k \<in> set [1..n]. print_cycle (w k) = None \<and> csv_write (w k) = None"
    by simp
  from run_cycles_rows [OF run this]
  have m: "map timestamp (csv_rows s') =
       map timestamp (csv_rows s) @ map (\<lambda>k. stamp (w k)) [1..n]" .
  then have "length (map timestamp (csv_rows s')) =
      length (map timestamp (csv_rows s) @ map (\<lambda>k. stamp (w k)) [1..n])" by simp
  then have l: "length (csv_rows s') = length (csv_rows s) + nat n" by simp
  from m l cycle_step_no_row show ?thesis by blast
qed

theorem one_row_per_completed_cycle_witness:
  "fst (run_cycles cycles_timeout_then_ok 2 [1..2] (no_tally, ready_agent)) = Continue \<and>
   map timestamp
     (csv_rows (snd (snd (run_cycles cycles_timeout_then_ok 2 [1..2] (no_tally, ready_agent))))) =
     [''2025-01-01T10:01:00'', ''2025-01-01T10:00:00'']"
proof -
  define t' where
    "t' = fst (snd (run_cycles cycles_timeout_then_ok 2 [1..2] (no_tally, ready_agent)))"
  define s' where
    "s' = snd (snd (run_cycles cycles_timeout_then_ok 2 [1..2] (no_tally, ready_agent)))"
  from run_timeout_then_ok
  have run: "run_cycles cycles_timeout_then_ok 2 [1..2] (no_tally, ready_agent) =
      (Continue, t', s')"
    by (simp add: t'_def s'_def prod_eq_iff)
  have pre: "\<forall>k \<in> {1..2}. print_cycle (cycles_timeout_then_ok k) = None \<and>
      csv_write (cycles_timeout_then_ok k) = None"
    by (simp add: cycles_timeout_then_ok_def cycle_timeout_def cycle_ok_def)
  from one_row_per_completed_cycle [OF run pre, THEN conjunct1]
  have "map timestamp (csv_rows s') =
      [''2025-01-01T10:01:00'', ''2025-01-01T10:00:00'']"
    by (simp add: upto_1_2 cycles_timeout_then_ok_def cycle_timeout_def cycle_ok_def
        ready_agent_def)
  with run_timeout_then_ok show ?thesis by (simp add: s'_def)
qed

text \<open>
  C2 as stated fails: the console cannot encode the rule that opens each cycle, so
  both cycles of this run raise before anything is written.  Both complete, the loop
  does not break, no append fails, the failure counter is incremented twice, and the
  log holds no row, not two.
\<close>

theorem failed_cycle_without_row:
  "run_cycles cycles_print_fails 2 [1..2] (no_tally, ready_agent) =
     (Continue, \<lparr>successful_searches = 0, failed_searches = 2\<rparr>,
      log ERROR (CycleFailed 2 (OtherException ''charmap codec cannot encode characters''))
        (log ERROR (CycleFailed 1 (OtherException ''charmap codec cannot encode characters''))
           ready_agent)) \<and>
   csv_rows (log ERROR (CycleFailed 2 (OtherException ''charmap codec cannot encode characters''))
        (log ERROR (CycleFailed 1 (OtherException ''charmap codec cannot encode characters''))
           ready_agent)) = []"
  by (simp add: upto_1_2 cycles_print_fails_def cycle_print_fails_def cycle_ok_def
      try_cycle_def cycle_step_def session_fault_def lower_def lower_char_def Let_def
      no_tally_def) (simp add: ready_agent_def)

section \<open>Unexpected exceptions and recovery\<close>

lemma recoveries_emit:
  "recoveries (emit e s) = recoveries s + (if e = Log WARNING RecoveryAttempt then 1 else 0)"
  by (simp add: recoveries_def emit_def)

lemma recoveries_log:
  "recoveries (log l m s) =
     recoveries s + (if l = WARNING \<and> m = RecoveryAttempt then 1 else 0)"
  by (simp add: log_def recoveries_emit)

lemma recoveries_fields [simp]:
  "recoveries (s\<lparr>search_history := h\<rparr>) = recoveries s"
  "recoveries (s\<lparr>csv_rows := r\<rparr>) = recoveries s"
  "recoveries (s\<lparr>driver := d, next_handle := n\<rparr>) = recoveries s"
  by (simp_all add: recoveries_def)

lemma attempt_query_recoveries:
  "attempt_query w i s = (r, s') \<Longrightarrow> recoveries s' = recoveries s"
  by (auto simp: attempt_query_def Let_def recoveries_emit recoveries_log
      split: sum.splits if_splits)

lemma attempts_recoveries:
  "attempts g is s = (r, s') \<Longrightarrow> recoveries s' = recoveries s"
proof (induction "is" arbitrary: s)
  case Nil
  then show ?case by simp
next
  case (Cons i "is")
  obtain r1 s1 where a: "attempt_query (attempt_w g i) i s = (r1, s1)"
    by (cases "attempt_query (attempt_w g i) i s")
  then have h: "recoveries s1 = recoveries s" by (rule attempt_query_recoveries)
  show ?case
  proof (cases r1)
    case NextAttempt
    with a Cons.prems have "attempts g is s1 = (r, s')" by simp
    from Cons.IH [OF this] h show ?thesis by simp
  qed (use a Cons.prems h in auto)
qed

lemma generate_recoveries:
  "generate_search_query g s = (r, s') \<Longrightarrow> recoveries s' = recoveries s"
proof -
  assume a: "generate_search_query g s = (r, s')"
  obtain r1 s1 where b: "attempts g [0..<3] s = (r1, s1)"
    by (cases "attempts g [0..<3] s")
  from b have "recoveries s1 = recoveries s" by (rule attempts_recoveries)
  with a b show ?thesis
    by (cases r1) (auto simp: generate_search_query_def fallback_def Let_def recoveries_log)
qed

lemma simulate_recoveries:
  "simulate_human_behavior b s = (r, s') \<Longrightarrow> recoveries s' = recoveries s"
  by (auto simp: simulate_human_behavior_def recoveries_log split: option.splits if_splits)

lemma search_body_recoveries:
  "search_body w q s = (r, s') \<Longrightarrow> recoveries s' = recoveries s"
  by (auto simp: search_body_def Let_def recoveries_log
      split: option.splits prod.splits sum.splits dest!: simulate_recoveries)

lemma execute_search_recoveries:
  "execute_search w q s = (r, s') \<Longrightarrow> recoveries s' = recoveries s"
  by (auto simp: execute_search_def Let_def recoveries_log
      split: prod.splits sum.splits exn.splits dest!: search_body_recoveries)

lemma log_search_result_recoveries:
  "log_search_result st wr q c ty ok url dt s = (r, s') \<Longrightarrow> recoveries s' = recoveries s"
  by (auto simp: log_search_result_def Let_def split: option.splits)

lemma random_delay_recoveries:
  "random_delay w s = (r, s') \<Longrightarrow> recoveries s' = recoveries s"
  by (auto simp: random_delay_def Let_def recoveries_log recoveries_emit
      split: if_splits option.splits)

lemma initialize_browser_recoveries:
  "initialize_browser w s = (r, s') \<Longrightarrow> recoveries s' = recoveries s"
  by (auto simp: initialize_browser_def reraise_logged_def Let_def recoveries_log
      recoveries_emit split: option.splits if_splits)

lemma recover_recoveries:
  "recover_from_browser_crash w s = (r, s') \<Longrightarrow> recoveries s' = recoveries s + 1"
  by (auto simp: recover_from_browser_crash_def Let_def recoveries_log recoveries_emit
      split: option.splits if_splits prod.splits dest!: initialize_browser_recoveries)

lemma try_cycle_recoveries:
  "try_cycle w k n (t, s) = (r, t', s') \<Longrightarrow> recoveries s' = recoveries s"
  by (auto simp: try_cycle_def Let_def
      split: prod.splits sum.splits option.splits if_splits
      dest!: generate_recoveries execute_search_recoveries log_search_result_recoveries
        random_delay_recoveries)

lemma run_cycles_append:
  "run_cycles w n (xs @ ys) ts =
     (case run_cycles w n xs ts of
        (Continue, ts') \<Rightarrow> run_cycles w n ys ts'
      | (f, ts') \<Rightarrow> (f, ts'))"
proof (induction xs arbitrary: ts)
  case Nil
  then show ?case by simp
next
  case (Cons x xs)
  obtain f ts' where "cycle_step (w x) x n ts = (f, ts')"
    by (cases "cycle_step (w x) x n ts")
  with Cons show ?case by (cases f) simp_all
qed

lemma run_cycles_split:
  assumes k: "1 \<le> k" "k \<le> n"
    and before: "run_cycles w n [1..k - 1] ts0 = (Continue, ts)"
  shows "run_cycles w n [1..n] ts0 =
     (case cycle_step (w k) k n ts of
        (Continue, ts') \<Rightarrow> run_cycles w n [k + 1..n] ts'
      | (f, ts') \<Rightarrow> (f, ts'))"
proof -
  from k have "[1..n] = [1..k - 1] @ k # [k + 1..n]" by (rule upto_split3)
  then show ?thesis using before by (simp add: run_cycles_append)
qed

text \<open>
  The handler for \<open>Exception\<close>, once it is entered: cycles 1 to \<open>k - 1\<close> of a run have
  gone through and the \<open>try\<close> block of cycle \<open>k\<close> raises an \<open>Exception\<close> \<open>e\<close>.  The
  handler logs it and increments the failure counter.  When the lower-cased text of
  \<open>e\<close> holds neither \<open>driver\<close> nor \<open>session\<close>, no recovery is attempted and the loop goes
  on with cycle \<open>k + 1\<close>.  When it holds one of them, recovery is attempted once:
  after a recovery that returns true the loop goes on with cycle \<open>k + 1\<close>; after one
  that returns false the loop breaks, no further cycle runs, and \<open>run\<close> ends by
  printing the final summary with the counters as they stand.
\<close>

lemma handler_recovery:
  "1 \<le> k \<Longrightarrow> k \<le> cycles \<Longrightarrow>
   ts0 = (no_tally, log INFO (StartAgent cycles) s0) \<Longrightarrow>
   run_cycles (cycle_w rw) cycles [1..k - 1] ts0 = (Continue, t, s) \<Longrightarrow>
   try_cycle (cycle_w rw k) k cycles (t, s) = (Some e, t1, s1) \<Longrightarrow>
   is_Exception e \<Longrightarrow>
   t2 = t1\<lparr>failed_searches := failed_searches t1 + 1\<rparr> \<Longrightarrow>
   s2 = log ERROR (CycleFailed k e) s1 \<Longrightarrow>
     recoveries s2 = recoveries s \<and>
     (\<not> session_fault e \<longrightarrow>
        run_cycles (cycle_w rw) cycles [1..cycles] ts0 =
          run_cycles (cycle_w rw) cycles [k + 1..cycles] (t2, s2)) \<and>
     (session_fault e \<longrightarrow>
        (\<forall>s3. recover_from_browser_crash (recovery (cycle_w rw k)) s2 = (Inr True, s3) \<longrightarrow>
           recoveries s3 = recoveries s + 1 \<and>
           run_cycles (cycle_w rw) cycles [1..cycles] ts0 =
             run_cycles (cycle_w rw) cycles [k + 1..cycles] (t2, s3)) \<and>
        (\<forall>s3. recover_from_browser_crash (recovery (cycle_w rw k)) s2 = (Inr False, s3) \<longrightarrow>
           recoveries s3 = recoveries s + 1 \<and>
           run_cycles (cycle_w rw) cycles [1..cycles] ts0 =
             (Break, t2, log ERROR CannotContinue s3) \<and>
           run rw (Some cycles) s0 =
             print_final_summary (summary_clock rw) (successful_searches t2)
               (failed_searches t2) cycles (log ERROR CannotContinue s3)))"
proof -
  assume k: "1 \<le> k" "k \<le> cycles"
    and ts0: "ts0 = (no_tally, log INFO (StartAgent cycles) s0)"
    and before: "run_cycles (cycle_w rw) cycles [1..k - 1] ts0 = (Continue, t, s)"
    and tc: "try_cycle (cycle_w rw k) k cycles (t, s) = (Some e, t1, s1)"
    and ex: "is_Exception e"
    and t2: "t2 = t1\<lparr>failed_searches := failed_searches t1 + 1\<rparr>"
    and s2: "s2 = log ERROR (CycleFailed k e) s1"
  let ?w = "cycle_w rw"
  note split = run_cycles_split [OF k before]
  note step = cycle_step_exception [OF tc ex]
  from try_cycle_recoveries [OF tc] have r2: "recoveries s2 = recoveries s"
    by (simp add: s2 recoveries_log)
  have a: "run_cycles ?w cycles [1..cycles] ts0 = run_cycles ?w cycles [k + 1..cycles] (t2, s2)"
    if "\<not> session_fault e"
    using that split step by (simp add: Let_def t2 s2)
  have b: "recoveries s3 = recoveries s + 1 \<and>
           run_cycles ?w cycles [1..cycles] ts0 = run_cycles ?w cycles [k + 1..cycles] (t2, s3)"
    if "session_fault e" "recover_from_browser_crash (recovery (?w k)) s2 = (Inr True, s3)" for s3
    using that split step recover_recoveries [OF that(2)] r2 by (simp add: Let_def t2 s2)
  have c: "recoveries s3 = recoveries s + 1 \<and>
           run_cycles ?w cycles [1..cycles] ts0 = (Break, t2, log ERROR CannotContinue s3) \<and>
           run rw (Some cycles) s0 =
             print_final_summary (summary_clock rw) (successful_searches t2)
               (failed_searches t2) cycles (log ERROR CannotContinue s3)"
    if sf: "session_fault e"
      and rc: "recover_from_browser_crash (recovery (?w k)) s2 = (Inr False, s3)" for s3
  proof -
    from sf rc split step
    have br: "run_cycles ?w cycles [1..cycles] ts0 = (Break, t2, log ERROR CannotContinue s3)"
      by (simp add: Let_def t2 s2)
    then have "run rw (Some cycles) s0 =
             print_final_summary (summary_clock rw) (successful_searches t2)
               (failed_searches t2) cycles (log ERROR CannotContinue s3)"
      by (simp add: run_def Let_def ts0 no_tally_def)
    with br recover_recoveries [OF rc] r2 show ?thesis by simp
  qed
  from r2 a b c show ?thesis by blast
qed

text \<open>
  What can enter that handler: an \<open>Exception\<close> that leaves the \<open>try\<close> block was raised by
  one of the \<open>print\<close> calls of the loop body, by the append to the run log, or inside
  \<open>_random_delay\<close>.  Query generation and \<open>execute_search\<close> catch every \<open>Exception\<close>
  themselves, so nothing the browser driver raises is among them.
\<close>

lemma first_exn_pair:
  "first_exn [a, b] = Some e \<Longrightarrow> a = Some e \<or> b = Some e"
  by (cases a; cases b) simp_all

lemma handled_exception_source:
  assumes tc: "try_cycle w k n (t, s) = (Some e, t', s')" and ex: "is_Exception e"
  shows "Some e \<in> {print_cycle w, csv_write w, print_outcome w, print_progress w,
                     countdown (delay w)} \<or>
         e = OtherException ''empty range for randrange()''"
proof (cases "print_cycle w")
  case (Some e')
  with tc show ?thesis by (simp add: try_cycle_def)
next
  case None
  obtain g s1 where g: "generate_search_query (gen w) s = (g, s1)"
    by (cases "generate_search_query (gen w) s")
  show ?thesis
  proof (cases g)
    case (Inl e')
    with g None tc have "e = e'" by (simp add: try_cycle_def)
    with generate_raises [OF g [unfolded Inl]] ex show ?thesis by simp
  next
    case (Inr qct)
    obtain q c ty where qct: "qct = (q, c, ty)" by (cases qct)
    obtain x s2 where x: "execute_search (search w) q s1 = (x, s2)"
      by (cases "execute_search (search w) q s1")
    show ?thesis
    proof (cases x)
      case (Inl e')
      with g Inr qct x None tc have "e = e'" by (simp add: try_cycle_def)
      with execute_search_raises [of "search w" q s1 e'] x Inl ex show ?thesis by simp
    next
      case (Inr out)
      obtain ok url dt where out: "out = (ok, url, dt)" by (cases out)
      from g \<open>g = Inr qct\<close> qct x Inr out None tc ex show ?thesis
        by (auto simp: try_cycle_def log_search_result_def random_delay_def Let_def
            split: option.splits if_splits dest: first_exn_pair)
    qed
  qed
qed


section \<open>Teardown\<close>

lemma cleanup_called: "CleanupCalled \<in> set (trace (snd (cleanup q s)))"
  by (simp add: cleanup_def Let_def emit_def log_def split: option.splits)

lemma handlers_keeps_trace: "x \<in> set (trace s) \<Longrightarrow> x \<in> set (trace (snd (handlers b e s)))"
  by (simp add: handlers_def Let_def emit_def)

lemma cleanup_after_construction:
  "construct (startup w) = (None, s) \<Longrightarrow> CleanupCalled \<in> set (trace (snd (main w)))"
proof -
  assume c: "construct (startup w) = (None, s)"
  obtain r s1 where r: "run (running w) None s = (r, s1)"
    by (cases "run (running w) None s")
  obtain q s2 where q: "cleanup (cleanup_quit w) s1 = (q, s2)"
    by (cases "cleanup (cleanup_quit w) s1")
  from cleanup_called [of "cleanup_quit w" s1] q have m: "CleanupCalled \<in> set (trace s2)"
    by simp
  show ?thesis
  proof (cases "case q of Some e \<Rightarrow> Some e | None \<Rightarrow> r")
    case None
    with c r q m show ?thesis by (simp add: main_def emit_def)
  next
    case (Some e)
    with c r q handlers_keeps_trace [OF m, of True e] show ?thesis by (simp add: main_def)
  qed
qed

lemma construct_csv_fails:
  "construct (startup main_csv_fails) =
     (Some (OtherException ''Permission denied''),
      \<lparr>config = demo_config, driver = Some 0, search_history = [],
       session_start_time = 0, csv_rows = [],
       trace = [Log INFO GeminiInitialized, BrowserLaunch 0, Log INFO EdgeInitialized],
       next_handle = 1\<rparr>)"
  by (simp add: construct_def main_csv_fails_def main_ok_def startup_ok_def demo_config_def
      launch_ok_def initialize_browser_def Let_def log_def emit_def)

text \<open>
  C9: once the agent is constructed, \<open>cleanup\<close> runs however \<open>run\<close> ends
  (\<open>cleanup_after_construction\<close>).  When the constructor fails after the browser has
  been launched, here because the run log cannot be created, the \<open>with\<close> statement is
  never entered: \<open>cleanup\<close> is not called, the launched browser is never quit, and the
  fatal-error handler itself fails on the unbound name \<open>agent\<close>.
\<close>

theorem startup_failure_skips_cleanup:
  "fst (main main_csv_fails) = Some (OtherException ''UnboundLocalError: agent'') \<and>
   trace (snd (main main_csv_fails)) =
     [Log INFO GeminiInitialized, BrowserLaunch 0, Log INFO EdgeInitialized,
      PrintFatal (OtherException ''Permission denied''), PrintExit] \<and>
   CleanupCalled \<notin> set (trace (snd (main main_csv_fails))) \<and>
   live_browsers (trace (snd (main main_csv_fails))) = [0]"
  by (simp add: main_def construct_csv_fails handlers_def Let_def emit_def live_browsers_def)

end
